theory Spec2Isabelle
  imports Main "HOL-Library.AList"
begin

section \<open>The simulation engine as seen by the controllers\<close>

text \<open>
  Both controllers (\<^verbatim>\<open>sumo_code.py\<close> and \<^verbatim>\<open>traffic_control.py\<close>) talk to the
  simulation engine through TraCI. A TraCI call either answers or raises. The
  controllers distinguish \<^verbatim>\<open>traci.TraCIException\<close> (caught in places) from every
  other exception (only caught by the handler around \<^verbatim>\<open>main\<close>).
\<close>

datatype error = TraCIException | OtherException

text \<open>
  What the engine answers during one iteration of a controller's main loop: one
  field per TraCI operation the loop body uses.
\<close>

record traci =
  getMinExpectedNumber :: "error + int"
  getLastStepVehicleNumber :: "string \<Rightarrow> error + int"
  lane_getIDList :: "error + string list"
  getPhase :: "error + int"
  setPhase :: "string \<Rightarrow> int \<Rightarrow> error + unit"
  trafficlight_getIDList :: "error + string list"
  simulationStep :: "error + unit"

text \<open>
  A Python \<^verbatim>\<open>dict\<close> keeps its keys in insertion order and \<^verbatim>\<open>items()\<close> iterates in
  that order, so a lane-counts mapping is an association list;
  \<^const>\<open>AList.update\<close> is the assignment \<^verbatim>\<open>d[k] = v\<close> (in place for a present
  key, appended for a new one).
\<close>

type_synonym lane_counts = "(string \<times> int) list"

text \<open>A call of the signal actuator: \<^verbatim>\<open>traci.trafficlight.setPhase(tls, phase)\<close>.\<close>

datatype call = SetPhase string int

section \<open>The phase selector\<close>

text \<open>
  The loop of \<^verbatim>\<open>get_lane_with_max_vehicles\<close>, the same in both files: the pair is
  \<^verbatim>\<open>(max_count, max_lane)\<close>, with \<^verbatim>\<open>None\<close> for no lane yet.
\<close>

fun max_scan :: "lane_counts \<Rightarrow> int \<times> string option \<Rightarrow> int \<times> string option" where
  "max_scan [] acc = acc"
| "max_scan ((lane, count) # rest) (max_count, max_lane) =
     (if count > max_count then max_scan rest (count, Some lane)
      else max_scan rest (max_count, max_lane))"

subsection \<open>\<^verbatim>\<open>sumo_code.py\<close>\<close>

definition sumo_LANE_PHASE_MAPPING :: "string \<rightharpoonup> int" where
  "sumo_LANE_PHASE_MAPPING =
     [''-E0_0'' \<mapsto> 0, ''E1_0'' \<mapsto> 2, ''E0_0'' \<mapsto> 4]"

text \<open>
  \<^verbatim>\<open>count_vehicles_per_lane\<close>: three assignments in a fixed order; an exception of
  the engine is not caught here.
\<close>

definition sumo_count_vehicles_per_lane :: "traci \<Rightarrow> error + lane_counts" where
  "sumo_count_vehicles_per_lane t =
     (case getLastStepVehicleNumber t ''-E0_0'' of
        Inl e \<Rightarrow> Inl e
      | Inr n1 \<Rightarrow>
         (case getLastStepVehicleNumber t ''E1_0'' of
            Inl e \<Rightarrow> Inl e
          | Inr n2 \<Rightarrow>
             (case getLastStepVehicleNumber t ''E0_0'' of
                Inl e \<Rightarrow> Inl e
              | Inr n3 \<Rightarrow>
                 Inr (AList.update ''E0_0'' n3
                       (AList.update ''E1_0'' n2
                         (AList.update ''-E0_0'' n1 []))))))"

text \<open>
  \<^verbatim>\<open>get_lane_with_max_vehicles\<close>: the round-robin branch reads the phase of
  \<^verbatim>\<open>J2\<close>, and an exception of that read is not caught.
\<close>

definition sumo_get_lane_with_max_vehicles :: "traci \<Rightarrow> lane_counts \<Rightarrow> error + string" where
  "sumo_get_lane_with_max_vehicles t lc =
     (case max_scan lc (0, None) of
        (max_count, None) \<Rightarrow>
          (case getPhase t of
             Inl e \<Rightarrow> Inl e
           | Inr current_phase \<Rightarrow>
               if current_phase = 0 then Inr ''E1_0''
               else if current_phase = 2 then Inr ''E0_0''
               else Inr ''-E0_0'')
      | (max_count, Some max_lane) \<Rightarrow> Inr max_lane)"

text \<open>
  \<^verbatim>\<open>set_traffic_lights\<close>: the actuator calls it issues, and the exception that
  leaves it, if any.
\<close>

definition sumo_set_traffic_lights :: "traci \<Rightarrow> string \<Rightarrow> call list \<times> error option" where
  "sumo_set_traffic_lights t green_lane =
     (case sumo_LANE_PHASE_MAPPING green_lane of
        None \<Rightarrow> ([], None)
      | Some phase \<Rightarrow>
          ([SetPhase ''J2'' phase],
           (case setPhase t ''J2'' phase of Inl e \<Rightarrow> Some e | Inr _ \<Rightarrow> None)))"

subsection \<open>\<^verbatim>\<open>traffic_control.py\<close>\<close>

definition tc_LANE_PHASE_MAPPING :: "string \<rightharpoonup> int" where
  "tc_LANE_PHASE_MAPPING =
     [''lane1_0'' \<mapsto> 0, ''lane2_0'' \<mapsto> 1, ''lane3_0'' \<mapsto> 2]"

text \<open>Python's \<^verbatim>\<open>sub in s\<close> on strings.\<close>

fun str_in :: "string \<Rightarrow> string \<Rightarrow> bool" where
  "str_in sub [] = (sub = [])"
| "str_in sub (c # cs) = (take (length sub) (c # cs) = sub \<or> str_in sub cs)"

text \<open>
  The loop of the \<^verbatim>\<open>except traci.TraCIException\<close> handler of
  \<^verbatim>\<open>count_vehicles_per_lane\<close> over the lanes the engine lists.
\<close>

fun tc_find_lanes :: "traci \<Rightarrow> string list \<Rightarrow> lane_counts \<Rightarrow> error + lane_counts" where
  "tc_find_lanes t [] lc = Inr lc"
| "tc_find_lanes t (lane # rest) lc =
     (if str_in ''lane1'' lane then
        (case getLastStepVehicleNumber t lane of
           Inl e \<Rightarrow> Inl e
         | Inr n \<Rightarrow> tc_find_lanes t rest (AList.update ''lane1_0'' n lc))
      else if str_in ''lane2'' lane then
        (case getLastStepVehicleNumber t lane of
           Inl e \<Rightarrow> Inl e
         | Inr n \<Rightarrow> tc_find_lanes t rest (AList.update ''lane2_0'' n lc))
      else if str_in ''lane3'' lane then
        (case getLastStepVehicleNumber t lane of
           Inl e \<Rightarrow> Inl e
         | Inr n \<Rightarrow> tc_find_lanes t rest (AList.update ''lane3_0'' n lc))
      else tc_find_lanes t rest lc)"

text \<open>
  The handler itself: only a \<^verbatim>\<open>TraCIException\<close> is caught; \<^verbatim>\<open>lc\<close> holds the
  assignments made before the exception.
\<close>

definition tc_count_handler :: "traci \<Rightarrow> error \<Rightarrow> lane_counts \<Rightarrow> error + lane_counts" where
  "tc_count_handler t e lc =
     (if e = TraCIException then
        (case lane_getIDList t of
           Inl e' \<Rightarrow> Inl e'
         | Inr all_lanes \<Rightarrow> tc_find_lanes t all_lanes lc)
      else Inl e)"

definition tc_count_vehicles_per_lane :: "traci \<Rightarrow> error + lane_counts" where
  "tc_count_vehicles_per_lane t =
     (case getLastStepVehicleNumber t ''lane1_0'' of
        Inl e \<Rightarrow> tc_count_handler t e []
      | Inr n1 \<Rightarrow>
         (case getLastStepVehicleNumber t ''lane2_0'' of
            Inl e \<Rightarrow> tc_count_handler t e (AList.update ''lane1_0'' n1 [])
          | Inr n2 \<Rightarrow>
             (case getLastStepVehicleNumber t ''lane3_0'' of
                Inl e \<Rightarrow>
                  tc_count_handler t e
                    (AList.update ''lane2_0'' n2 (AList.update ''lane1_0'' n1 []))
              | Inr n3 \<Rightarrow>
                 Inr (AList.update ''lane3_0'' n3
                       (AList.update ''lane2_0'' n2
                         (AList.update ''lane1_0'' n1 []))))))"

text \<open>
  \<^verbatim>\<open>get_lane_with_max_vehicles\<close>: the round-robin branch is also taken when
  \<^verbatim>\<open>max_count == 0\<close>, and a bare \<^verbatim>\<open>except\<close> turns any failure to read the phase
  of \<^verbatim>\<open>tls\<close> into \<^verbatim>\<open>lane1_0\<close>, so this variant always returns a lane.
\<close>

definition tc_round_robin :: "traci \<Rightarrow> string" where
  "tc_round_robin t =
     (case getPhase t of
        Inl e \<Rightarrow> ''lane1_0''
      | Inr current_phase \<Rightarrow>
          if current_phase = 0 then ''lane2_0''
          else if current_phase = 1 then ''lane3_0''
          else ''lane1_0'')"

definition tc_get_lane_with_max_vehicles :: "traci \<Rightarrow> lane_counts \<Rightarrow> string" where
  "tc_get_lane_with_max_vehicles t lc =
     (case max_scan lc (0, None) of
        (max_count, None) \<Rightarrow> tc_round_robin t
      | (max_count, Some max_lane) \<Rightarrow>
          if max_count = 0 then tc_round_robin t else max_lane)"

text \<open>
  \<^verbatim>\<open>set_traffic_lights\<close>: a \<^verbatim>\<open>TraCIException\<close> of \<^verbatim>\<open>setPhase\<close> is caught, and
  the handler lists the traffic lights, which may raise in turn.
\<close>

definition tc_set_traffic_lights :: "traci \<Rightarrow> string \<Rightarrow> call list \<times> error option" where
  "tc_set_traffic_lights t green_lane =
     (case tc_LANE_PHASE_MAPPING green_lane of
        None \<Rightarrow> ([], None)
      | Some phase \<Rightarrow>
          ([SetPhase ''tls'' phase],
           (case setPhase t ''tls'' phase of
              Inr _ \<Rightarrow> None
            | Inl e \<Rightarrow>
                if e = TraCIException then
                  (case trafficlight_getIDList t of Inl e' \<Rightarrow> Some e' | Inr _ \<Rightarrow> None)
                else Some e)))"

section \<open>The control loops\<close>

text \<open>
  A control loop runs until the engine reports no expected vehicle
  (\<^verbatim>\<open>Ended\<close>) or an exception reaches the handler around \<^verbatim>\<open>main\<close>
  (\<^verbatim>\<open>Failed\<close>). A run is driven by the list of the engine's answers, one
  \<^typ>\<open>traci\<close> per iteration; a loop function returns the actuator calls it
  issued, in order, and the state it reached.
\<close>

datatype status = Running | Ended | Failed error

subsection \<open>\<^verbatim>\<open>main\<close> of \<^verbatim>\<open>sumo_code.py\<close>\<close>

record sumo_state =
  sumo_step :: nat
  sumo_status :: status

definition sumo_init :: sumo_state where
  "sumo_init = \<lparr>sumo_step = 0, sumo_status = Running\<rparr>"

text \<open>The decision block, taken when \<^verbatim>\<open>step % 30 == 0\<close>.\<close>

definition sumo_decide :: "traci \<Rightarrow> lane_counts \<Rightarrow> call list \<times> error option" where
  "sumo_decide t lc =
     (case sumo_get_lane_with_max_vehicles t lc of
        Inl e \<Rightarrow> ([], Some e)
      | Inr priority_lane \<Rightarrow> sumo_set_traffic_lights t priority_lane)"

definition sumo_iteration :: "traci \<Rightarrow> sumo_state \<Rightarrow> call list \<times> sumo_state" where
  "sumo_iteration t s =
     (case getMinExpectedNumber t of
        Inl e \<Rightarrow> ([], s\<lparr>sumo_status := Failed e\<rparr>)
      | Inr n \<Rightarrow>
          if \<not> n > 0 then ([], s\<lparr>sumo_status := Ended\<rparr>)
          else
            (case sumo_count_vehicles_per_lane t of
               Inl e \<Rightarrow> ([], s\<lparr>sumo_status := Failed e\<rparr>)
             | Inr lc \<Rightarrow>
                 (case (if sumo_step s mod 30 = 0 then sumo_decide t lc else ([], None)) of
                    (calls, Some e) \<Rightarrow> (calls, s\<lparr>sumo_status := Failed e\<rparr>)
                  | (calls, None) \<Rightarrow>
                      (case simulationStep t of
                         Inl e \<Rightarrow> (calls, s\<lparr>sumo_status := Failed e\<rparr>)
                       | Inr _ \<Rightarrow> (calls, s\<lparr>sumo_step := sumo_step s + 1\<rparr>)))))"

fun sumo_main_loop :: "traci list \<Rightarrow> sumo_state \<Rightarrow> call list \<times> sumo_state" where
  "sumo_main_loop [] s = ([], s)"
| "sumo_main_loop (t # ts) s =
     (if sumo_status s \<noteq> Running then ([], s)
      else
        (case sumo_iteration t s of
           (calls, s') \<Rightarrow>
             (case sumo_main_loop ts s' of
                (calls', s'') \<Rightarrow> (calls @ calls', s''))))"

subsection \<open>\<^verbatim>\<open>main\<close> of \<^verbatim>\<open>traffic_control.py\<close>\<close>

record tc_state =
  step :: nat
  green_time :: nat
  current_green_lane :: "string option"
  status :: status

definition tc_init :: tc_state where
  "tc_init = \<lparr>step = 0, green_time = 0, current_green_lane = None, status = Running\<rparr>"

text \<open>
  The loop starts after \<^verbatim>\<open>start_simulation\<close> and ten warm-up steps; if one of
  those raises, the loop is never entered.

  The decision block: when \<^verbatim>\<open>set_traffic_lights\<close> raises, the two assignments
  after it are not reached.
\<close>

definition tc_decide :: "traci \<Rightarrow> lane_counts \<Rightarrow> tc_state \<Rightarrow> call list \<times> error option \<times> tc_state" where
  "tc_decide t lc s =
     (if step s mod 50 = 0 \<or> green_time s \<ge> 50 then
        (let priority_lane = tc_get_lane_with_max_vehicles t lc in
           if Some priority_lane \<noteq> current_green_lane s then
             (case tc_set_traffic_lights t priority_lane of
                (calls, Some e) \<Rightarrow> (calls, Some e, s)
              | (calls, None) \<Rightarrow>
                  (calls, None,
                   s\<lparr>current_green_lane := Some priority_lane, green_time := 0\<rparr>))
           else ([], None, s\<lparr>green_time := 0\<rparr>))
      else ([], None, s))"

text \<open>
  The loop body. Every tenth step prints the current phase, and that read is not
  guarded.
\<close>

definition tc_loop_body :: "traci \<Rightarrow> tc_state \<Rightarrow> call list \<times> tc_state" where
  "tc_loop_body t s =
     (case tc_count_vehicles_per_lane t of
        Inl e \<Rightarrow> ([], s\<lparr>status := Failed e\<rparr>)
      | Inr lc \<Rightarrow>
          (case (if step s mod 10 = 0 then getPhase t else Inr 0) of
             Inl e \<Rightarrow> ([], s\<lparr>status := Failed e\<rparr>)
           | Inr _ \<Rightarrow>
               (case tc_decide t lc s of
                  (calls, Some e, s1) \<Rightarrow> (calls, s1\<lparr>status := Failed e\<rparr>)
                | (calls, None, s1) \<Rightarrow>
                    (case simulationStep t of
                       Inl e \<Rightarrow> (calls, s1\<lparr>status := Failed e\<rparr>)
                     | Inr _ \<Rightarrow>
                         (calls,
                          s1\<lparr>step := step s1 + 1, green_time := green_time s1 + 1\<rparr>)))))"

definition tc_iteration :: "traci \<Rightarrow> tc_state \<Rightarrow> call list \<times> tc_state" where
  "tc_iteration t s =
     (case getMinExpectedNumber t of
        Inl e \<Rightarrow> ([], s\<lparr>status := Failed e\<rparr>)
      | Inr n \<Rightarrow> if n > 0 then tc_loop_body t s else ([], s\<lparr>status := Ended\<rparr>))"

fun tc_main_loop :: "traci list \<Rightarrow> tc_state \<Rightarrow> call list \<times> tc_state" where
  "tc_main_loop [] s = ([], s)"
| "tc_main_loop (t # ts) s =
     (if status s \<noteq> Running then ([], s)
      else
        (case tc_iteration t s of
           (calls, s') \<Rightarrow>
             (case tc_main_loop ts s' of
                (calls', s'') \<Rightarrow> (calls @ calls', s''))))"

text \<open>The states the loop of \<^verbatim>\<open>traffic_control.py\<close> can be in at the top of an iteration.\<close>

definition tc_reachable :: "tc_state \<Rightarrow> bool" where
  "tc_reachable s \<longleftrightarrow> (\<exists>ts. snd (tc_main_loop ts tc_init) = s \<and> status s = Running)"

section \<open>The per-lane counting pipeline (\<^verbatim>\<open>vehicle4.py\<close>)\<close>

text \<open>
  The image operations of \<^verbatim>\<open>vehicle_counter\<close> (background subtraction, dilation,
  closing, contour search, drawing, resizing) belong to OpenCV. They are taken to
  succeed on every frame that was read, and so is the scaling of the frame for
  display (an opened capture reports a positive frame width and height). What the
  counting logic sees of a frame is the list of bounding rectangles
  \<^verbatim>\<open>(x, y, w, h)\<close> of the contours found in it, in the order \<^verbatim>\<open>findContours\<close>
  returned them.
  Coordinates, counts and frame numbers are Python integers.
\<close>

type_synonym rect = "int \<times> int \<times> int \<times> int"
type_synonym center = "int \<times> int"
type_synonym crossing = "center \<times> int"

definition min_width_rect :: int where "min_width_rect = 80"
definition min_height_rect :: int where "min_height_rect = 80"
definition count_line_position :: int where "count_line_position = 550"
definition offset :: int where "offset = 6"
definition cooldown_frames :: int where "cooldown_frames = 15"

text \<open>
  \<^verbatim>\<open>int(w / 2)\<close>: the quotient rounded towards zero (the float division is exact
  for every integer an image dimension can be).
\<close>

definition int_half :: "int \<Rightarrow> int" where
  "int_half w = (if 0 \<le> w then w div 2 else - ((- w) div 2))"

definition center_handle :: "int \<Rightarrow> int \<Rightarrow> int \<Rightarrow> int \<Rightarrow> center" where
  "center_handle x y w h = (x + int_half w, y + int_half h)"

text \<open>The size filter of the blob loop.\<close>

definition accepted :: "rect \<Rightarrow> bool" where
  "accepted r = (case r of (x, y, w, h) \<Rightarrow> w \<ge> min_width_rect \<and> h \<ge> min_height_rect)"

text \<open>The blob loop: the list \<^verbatim>\<open>centers\<close> it builds.\<close>

fun extract_centers :: "rect list \<Rightarrow> center list" where
  "extract_centers [] = []"
| "extract_centers ((x, y, w, h) # cs) =
     (if w \<ge> min_width_rect \<and> h \<ge> min_height_rect
      then center_handle x y w h # extract_centers cs
      else extract_centers cs)"

record counter_state =
  recently_counted :: "crossing list"
  counter :: int
  frame_idx :: int

definition counter_init :: counter_state where
  "counter_init = \<lparr>recently_counted = [], counter = 0, frame_idx = 0\<rparr>"

text \<open>The inner loop over \<^verbatim>\<open>recently_counted\<close>, which stops at the first match.\<close>

fun already_counted :: "int \<Rightarrow> int \<Rightarrow> int \<Rightarrow> crossing list \<Rightarrow> bool" where
  "already_counted cx cy fidx [] = False"
| "already_counted cx cy fidx ((prev_center, prev_frame) # rest) =
     (if \<bar>cx - fst prev_center\<bar> < 30 \<and> \<bar>cy - snd prev_center\<bar> < 30
         \<and> (fidx - prev_frame) < cooldown_frames
      then True
      else already_counted cx cy fidx rest)"

text \<open>The body of the loop over \<^verbatim>\<open>centers\<close>, for one centre.\<close>

definition count_center :: "center \<Rightarrow> counter_state \<Rightarrow> counter_state" where
  "count_center c s =
     (case c of (cx, cy) \<Rightarrow>
        if \<bar>cy - count_line_position\<bar> < offset then
          (if \<not> already_counted cx cy (frame_idx s) (recently_counted s) then
             s\<lparr>counter := counter s + 1,
               recently_counted := recently_counted s @ [(c, frame_idx s)]\<rparr>
           else s)
        else s)"

fun count_centers :: "center list \<Rightarrow> counter_state \<Rightarrow> counter_state" where
  "count_centers [] s = s"
| "count_centers (c # cs) s = count_centers cs (count_center c s)"

text \<open>The pruning of \<^verbatim>\<open>recently_counted\<close> at the end of a frame.\<close>

definition prune :: "counter_state \<Rightarrow> counter_state" where
  "prune s =
     s\<lparr>recently_counted :=
         filter (\<lambda>(c, f). (frame_idx s - f) < cooldown_frames) (recently_counted s)\<rparr>"

text \<open>
  One iteration of the frame loop after a successful read, from the centres on
  (\<^verbatim>\<open>frame_step\<close>) and from the rectangles on (\<^verbatim>\<open>process_frame\<close>).
\<close>

definition frame_step :: "center list \<Rightarrow> counter_state \<Rightarrow> counter_state" where
  "frame_step centers s = prune (count_centers centers (s\<lparr>frame_idx := frame_idx s + 1\<rparr>))"

definition process_frame :: "rect list \<Rightarrow> counter_state \<Rightarrow> counter_state" where
  "process_frame rects s = frame_step (extract_centers rects) s"

fun run_frames :: "center list list \<Rightarrow> counter_state \<Rightarrow> counter_state" where
  "run_frames [] s = s"
| "run_frames (centers # rest) s = run_frames rest (frame_step centers s)"

subsection \<open>The worker\<close>

text \<open>
  An item of the shared queue is \<^verbatim>\<open>(window_name, frame, counter)\<close>; the frame
  \<^verbatim>\<open>None\<close> marks the end of a lane. Images are opaque (\<^typ>\<open>'img\<close>).
\<close>

type_synonym 'img item = "string \<times> 'img option \<times> int"

text \<open>
  The video source of one lane: whether the path exists, whether the capture
  opened, and what each iteration of the frame loop observes: the stop event,
  then the read, which yields the frame to display and the rectangles found in it,
  or fails (\<^verbatim>\<open>not ret or frame1 is None or frame1.size == 0\<close>). The video is a
  file: after the listed iterations the source is at its end and a read fails.
\<close>

record 'img video =
  path_exists :: bool
  isOpened :: bool
  iterations :: "(bool \<times> ('img \<times> rect list) option) list"

text \<open>The frame loop: the items it publishes and the counting state it ends in.\<close>

fun frame_loop ::
  "string \<Rightarrow> (bool \<times> ('img \<times> rect list) option) list \<Rightarrow> counter_state
     \<Rightarrow> 'img item list \<times> counter_state" where
  "frame_loop window_name [] s = ([], s)"
| "frame_loop window_name ((stop_is_set, rd) # rest) s =
     (if stop_is_set then ([], s)
      else
        (case rd of
           None \<Rightarrow> ([], s)
         | Some (display_frame, rects) \<Rightarrow>
             (let s' = process_frame rects s in
                (case frame_loop window_name rest s' of
                   (items, s'') \<Rightarrow>
                     ((window_name, Some display_frame, counter s') # items, s'')))))"

record 'img worker_run =
  published :: "'img item list"
  released :: bool
  final_state :: counter_state

definition vehicle_counter :: "'img video \<Rightarrow> string \<Rightarrow> 'img worker_run" where
  "vehicle_counter video window_name =
     (if \<not> path_exists video then
        \<lparr>published = [(window_name, None, 0)], released = False, final_state = counter_init\<rparr>
      else if \<not> isOpened video then
        \<lparr>published = [(window_name, None, 0)], released = False, final_state = counter_init\<rparr>
      else
        (case frame_loop window_name (iterations video) counter_init of
           (items, s) \<Rightarrow>
             \<lparr>published = items @ [(window_name, None, counter s)],
              released = True, final_state = s\<rparr>))"

section \<open>The consumer (\<^verbatim>\<open>display_frames\<close>)\<close>

subsection \<open>\<^verbatim>\<open>write_counts_table\<close>\<close>

text \<open>
  The body of \<^verbatim>\<open>write_counts_table\<close> is one \<^verbatim>\<open>try\<close> block: \<^verbatim>\<open>os.makedirs\<close>, then
  the assignment of \<^verbatim>\<open>filepath\<close>, then opening and writing the file. Its handler
  logs a message that formats \<^verbatim>\<open>filepath\<close>. So what the function does depends on
  what the file system answers:
  \<^item> everything succeeds: the table of the mapping is written;
  \<^item> opening or writing raises: \<^verbatim>\<open>filepath\<close> is bound, the handler logs, and the
    function returns with no complete table written;
  \<^item> \<^verbatim>\<open>os.makedirs\<close> raises: \<^verbatim>\<open>filepath\<close> is not bound yet, so the handler itself
    raises \<^verbatim>\<open>UnboundLocalError\<close>, which leaves the function.
\<close>

datatype disk = DiskOk | WriteFails | MakedirsFails

datatype py_exception = UnboundLocalError

definition write_counts_table :: "disk \<Rightarrow> lane_counts \<Rightarrow> py_exception + lane_counts option" where
  "write_counts_table d fc =
     (case d of
        DiskOk \<Rightarrow> Inr (Some fc)
      | WriteFails \<Rightarrow> Inr None
      | MakedirsFails \<Rightarrow> Inl UnboundLocalError)"

subsection \<open>The loop\<close>

text \<open>
  The consumer owns the receiving end of the queue. Its state is the set
  \<^verbatim>\<open>windows\<close>, the dict \<^verbatim>\<open>final_counts\<close>, the stop event, the items waiting in
  the queue, the table \<^verbatim>\<open>write_counts_table\<close> wrote, if it wrote one (the report),
  and the exception that left \<^verbatim>\<open>display_frames\<close>, if one did: its only handler is
  \<^verbatim>\<open>except queue.Empty\<close>. Creating, showing and destroying windows belongs to
  OpenCV and is taken to succeed.
\<close>

record 'img consumer =
  windows :: "string set"
  final_counts :: lane_counts
  stop_event :: bool
  queue :: "'img item list"
  report :: "lane_counts option"
  raised :: "py_exception option"

text \<open>\<^verbatim>\<open>{lane: 0 for lane in lane_list}\<close>\<close>

fun zero_counts :: "string list \<Rightarrow> lane_counts \<Rightarrow> lane_counts" where
  "zero_counts [] d = d"
| "zero_counts (lane # rest) d = zero_counts rest (AList.update lane 0 d)"

definition consumer_init :: "string list \<Rightarrow> bool \<Rightarrow> 'img consumer" where
  "consumer_init lane_list stop =
     \<lparr>windows = set lane_list, final_counts = zero_counts lane_list [],
      stop_event = stop, queue = [], report = None, raised = None\<rparr>"

text \<open>
  The end of both cancellation branches: every window is destroyed and removed
  from \<^verbatim>\<open>windows\<close>, then \<^verbatim>\<open>write_counts_table(final_counts)\<close> is called.
\<close>

definition close_and_write :: "disk \<Rightarrow> 'img consumer \<Rightarrow> 'img consumer" where
  "close_and_write d s =
     (case write_counts_table d (final_counts s) of
        Inl e \<Rightarrow> s\<lparr>windows := {}, raised := Some e\<rparr>
      | Inr table \<Rightarrow> s\<lparr>windows := {}, report := table\<rparr>)"

text \<open>
  One iteration of the \<^verbatim>\<open>while windows\<close> loop. Its input is what the workers put
  on the queue before the \<^verbatim>\<open>get\<close> returns or times out, and what
  \<^verbatim>\<open>cv2.waitKey(1)\<close> answers if a frame is shown. Its result is the item taken
  from the queue and acted on (if any), whether the loop is left (by \<^verbatim>\<open>break\<close> or
  by an exception), and the new state. On the key \<^verbatim>\<open>z\<close> the stop event is set and
  the queue is emptied by \<^verbatim>\<open>get_nowait\<close>, whose results are dropped.
\<close>

definition display_iteration ::
  "disk \<Rightarrow> 'img item list \<times> int \<Rightarrow> 'img consumer
     \<Rightarrow> 'img item list \<times> bool \<times> 'img consumer" where
  "display_iteration d inp s =
     (case inp of (arrivals, waitKey) \<Rightarrow>
        (case queue s @ arrivals of
           [] \<Rightarrow>
             (if stop_event s then ([], True, close_and_write d s)
              else ([], False, s))
         | (window_name, frame, cnt) # q \<Rightarrow>
             (case frame of
                None \<Rightarrow>
                  (if window_name \<in> windows s then
                     ([(window_name, frame, cnt)], False,
                      s\<lparr>queue := q, windows := windows s - {window_name},
                        final_counts := AList.update window_name cnt (final_counts s)\<rparr>)
                   else ([(window_name, frame, cnt)], False, s\<lparr>queue := q\<rparr>))
              | Some img \<Rightarrow>
                  (let fc = AList.update window_name cnt (final_counts s);
                       key = and waitKey 255
                   in
                     if key = 122 \<or> key = 90 then
                       ([(window_name, frame, cnt)], True,
                        close_and_write d
                          (s\<lparr>final_counts := fc, stop_event := True, queue := []\<rparr>))
                     else
                       ([(window_name, frame, cnt)], False,
                        s\<lparr>queue := q, final_counts := fc\<rparr>)))))"

text \<open>
  The loop: the items acted on, in order, and the state at the end. The list of
  inputs bounds the number of iterations looked at.
\<close>

fun display_loop ::
  "disk \<Rightarrow> ('img item list \<times> int) list \<Rightarrow> 'img consumer
     \<Rightarrow> 'img item list \<times> 'img consumer" where
  "display_loop d [] s = ([], s)"
| "display_loop d (inp # rest) s =
     (if windows s = {} then ([], s)
      else
        (case display_iteration d inp s of
           (acted, left, s') \<Rightarrow>
             if left then (acted, s')
             else
               (case display_loop d rest s' of
                  (acted', s'') \<Rightarrow> (acted @ acted', s''))))"

definition display_frames ::
  "disk \<Rightarrow> ('img item list \<times> int) list \<Rightarrow> string list \<Rightarrow> bool
     \<Rightarrow> 'img item list \<times> 'img consumer" where
  "display_frames d inputs lane_list stop =
     display_loop d inputs (consumer_init lane_list stop)"

section \<open>Sample inputs\<close>

text \<open>
  An engine that answers every call: the three approach lanes hold \<^verbatim>\<open>n1\<close>,
  \<^verbatim>\<open>n2\<close> and \<^verbatim>\<open>n3\<close> vehicles (under the lane names of either controller), the
  signal is in phase \<^verbatim>\<open>ph\<close>, and vehicles are still expected.
\<close>

definition engine :: "int \<Rightarrow> int \<Rightarrow> int \<Rightarrow> int \<Rightarrow> traci" where
  "engine n1 n2 n3 ph =
     \<lparr>getMinExpectedNumber = Inr 1,
      getLastStepVehicleNumber =
        (\<lambda>lane. if lane = ''-E0_0'' \<or> lane = ''lane1_0'' then Inr n1
                else if lane = ''E1_0'' \<or> lane = ''lane2_0'' then Inr n2
                else if lane = ''E0_0'' \<or> lane = ''lane3_0'' then Inr n3
                else Inl TraCIException),
      lane_getIDList = Inr [''lane1_0'', ''lane2_0'', ''lane3_0''],
      getPhase = Inr ph,
      setPhase = (\<lambda>tls p. Inr ()),
      trafficlight_getIDList = Inr [''tls''],
      simulationStep = Inr ()\<rparr>"

section \<open>Reference notions\<close>

text \<open>
  The successor of an element in a list read as a cycle (the last element is
  followed by the first).
\<close>

fun cyclic_next :: "'a list \<Rightarrow> 'a \<Rightarrow> 'a option" where
  "cyclic_next [] a = None"
| "cyclic_next (x # xs) a =
     (case dropWhile (\<lambda>y. y \<noteq> a) (x # xs) of
        [] \<Rightarrow> None
      | [_] \<Rightarrow> Some x
      | _ # b # _ \<Rightarrow> Some b)"

text \<open>The lanes of each controller in the order of its \<^verbatim>\<open>LANE_PHASE_MAPPING\<close>.\<close>

definition sumo_lane_cycle :: "string list" where
  "sumo_lane_cycle = [''-E0_0'', ''E1_0'', ''E0_0'']"

definition tc_lane_cycle :: "string list" where
  "tc_lane_cycle = [''lane1_0'', ''lane2_0'', ''lane3_0'']"

text \<open>
  What holds of the variables of the loop of \<^verbatim>\<open>traffic_control.py\<close> at the top
  of every iteration: before the first decision no lane is green; afterwards
  one is, and \<^verbatim>\<open>green_time\<close> follows \<^verbatim>\<open>step\<close>, reaching 50 exactly on the
  steps divisible by 50.
\<close>

definition tc_inv :: "tc_state \<Rightarrow> bool" where
  "tc_inv s \<longleftrightarrow>
     (step s = 0 \<and> green_time s = 0 \<and> current_green_lane s = None)
   \<or> (0 < step s \<and> current_green_lane s \<noteq> None
        \<and> green_time s = (if step s mod 50 = 0 then 50 else step s mod 50))"

text \<open>
  The state of the loop of \<^verbatim>\<open>traffic_control.py\<close> after a first iteration that
  granted green to \<^verbatim>\<open>lane1_0\<close>.
\<close>

definition tc_after_first :: tc_state where
  "tc_after_first =
     \<lparr>step = 1, green_time = 1, current_green_lane = Some ''lane1_0'', status = Running\<rparr>"

text \<open>
  Two centres seen \<^verbatim>\<open>gap\<close> frames apart and nothing else: in the same frame when
  \<^verbatim>\<open>gap\<close> is 0, otherwise with \<^verbatim>\<open>gap - 1\<close> empty frames between them.
\<close>

definition two_crossings :: "center \<Rightarrow> nat \<Rightarrow> center \<Rightarrow> center list list" where
  "two_crossings c1 gap c2 =
     (if gap = 0 then [[c1, c2]] else [c1] # replicate (gap - 1) [] @ [[c2]])"

text \<open>
  A centre seen in frame \<^verbatim>\<open>fidx\<close> is an accepted crossing, given the crossing
  records retained so far, when it lies within 6 px of the counting line at 550
  and no retained record is within 30 px of it in x and in y and less than 15
  frames old.
\<close>

definition accepted_crossing :: "center \<Rightarrow> int \<Rightarrow> crossing list \<Rightarrow> bool" where
  "accepted_crossing c fidx history \<longleftrightarrow>
     \<bar>snd c - 550\<bar> < 6
     \<and> \<not> (\<exists>r \<in> set history.
            \<bar>fst c - fst (fst r)\<bar> < 30 \<and> \<bar>snd c - snd (fst r)\<bar> < 30 \<and> fidx - snd r < 15)"

text \<open>
  The number of accepted crossings among the centres of one frame, taken in
  order: an accepted crossing is remembered for the centres after it.
\<close>

fun crossings_in_frame :: "center list \<Rightarrow> int \<Rightarrow> crossing list \<Rightarrow> int" where
  "crossings_in_frame [] fidx history = 0"
| "crossings_in_frame (c # cs) fidx history =
     (if accepted_crossing c fidx history
      then 1 + crossings_in_frame cs fidx (history @ [(c, fidx)])
      else crossings_in_frame cs fidx history)"

text \<open>The counts reached after each of a sequence of frames.\<close>

fun counts_after :: "rect list list \<Rightarrow> counter_state \<Rightarrow> int list" where
  "counts_after [] s = []"
| "counts_after (rects # rest) s =
     counter (process_frame rects s) # counts_after rest (process_frame rects s)"

text \<open>The count an item of the queue carries.\<close>

definition item_count :: "'img item \<Rightarrow> int" where
  "item_count it = snd (snd it)"

text \<open>
  The frames a worker reads before it observes the stop event or a read fails: the
  rectangles of each.
\<close>

fun frames_read :: "(bool \<times> ('img \<times> rect list) option) list \<Rightarrow> rect list list" where
  "frames_read [] = []"
| "frames_read ((stop_is_set, rd) # rest) =
     (if stop_is_set then []
      else (case rd of None \<Rightarrow> [] | Some (img, rects) \<Rightarrow> rects # frames_read rest))"

text \<open>The terminal sentinel of a lane: an item whose frame is \<^verbatim>\<open>None\<close>.\<close>

definition is_sentinel :: "'img item \<Rightarrow> bool" where
  "is_sentinel it \<longleftrightarrow> fst (snd it) = None"

text \<open>
  The count of the last item of a lane among the items the consumer acted on, 0
  when there is none.
\<close>

definition last_count :: "string \<Rightarrow> 'img item list \<Rightarrow> int" where
  "last_count lane items =
     (case filter (\<lambda>it. fst it = lane) items of
        [] \<Rightarrow> 0
      | _ # _ \<Rightarrow> item_count (last (filter (\<lambda>it. fst it = lane) items)))"

text \<open>
  The same with a starting value, for a consumer that already holds a count for
  the lane.
\<close>

definition expected_count :: "string \<Rightarrow> 'img item list \<Rightarrow> int option \<Rightarrow> int option" where
  "expected_count lane items start =
     (case filter (\<lambda>it. fst it = lane) items of
        [] \<Rightarrow> start
      | _ # _ \<Rightarrow> Some (item_count (last (filter (\<lambda>it. fst it = lane) items))))"

text \<open>The key test of the consumer: \<^verbatim>\<open>cv2.waitKey(1) & 0xFF\<close> is \<^verbatim>\<open>ord('z')\<close> or \<^verbatim>\<open>ord('Z')\<close>.\<close>

definition z_pressed :: "int \<Rightarrow> bool" where
  "z_pressed waitKey \<longleftrightarrow> and waitKey 255 = 122 \<or> and waitKey 255 = 90"

text \<open>
  A video of two readable frames (one vehicle-sized blob on the counting line in
  the first) whose worker sees the stop event on its third iteration, and a video
  whose file is missing.
\<close>

definition sample_video :: "nat video" where
  "sample_video =
     \<lparr>path_exists = True, isOpened = True,
      iterations = [(False, Some (1, [(10, 510, 80, 80)])), (False, Some (2, [])),
                    (True, Some (3, []))]\<rparr>"

definition missing_video :: "nat video" where
  "missing_video = \<lparr>path_exists = False, isOpened = False, iterations = []\<rparr>"

text \<open>
  What the consumer of two lanes meets: a frame of each lane; the sentinel of
  lane 2; then two more frames of lane 1 waiting and the key \<^verbatim>\<open>Z\<close> pressed on the
  first of them. No key gives \<^verbatim>\<open>waitKey\<close> the value -1.
\<close>

definition sample_inputs :: "(nat item list \<times> int) list" where
  "sample_inputs =
     [([(''Lane 1'', Some 1, 1), (''Lane 2'', Some 1, 4)], - 1),
      ([(''Lane 2'', None, 4)], - 1),
      ([], - 1),
      ([(''Lane 1'', Some 2, 2), (''Lane 1'', Some 3, 3)], 90)]"

definition sample_acted :: "nat item list" where
  "sample_acted =
     [(''Lane 1'', Some 1, 1), (''Lane 2'', Some 1, 4), (''Lane 2'', None, 4),
      (''Lane 1'', Some 2, 2)]"

definition sample_end :: "nat consumer" where
  "sample_end =
     \<lparr>windows = {}, final_counts = [(''Lane 1'', 2), (''Lane 2'', 4)], stop_event = True,
      queue = [], report = Some [(''Lane 1'', 2), (''Lane 2'', 4)], raised = None\<rparr>"

section \<open>Properties of the phase selector\<close>

lemma max_scan_none:
  "\<forall>p \<in> set lc. snd p \<le> m \<Longrightarrow> max_scan lc (m, ml) = (m, ml)"
  by (induction lc) auto

text \<open>
  When some count exceeds the running maximum, the scan ends on the first position
  that holds the greatest count.
\<close>

lemma max_scan_first:
  "\<exists>p \<in> set lc. m < snd p \<Longrightarrow>
   \<exists>i < length lc. max_scan lc (m, ml) = (snd (lc ! i), Some (fst (lc ! i)))
      \<and> m < snd (lc ! i)
      \<and> (\<forall>j < i. snd (lc ! j) < snd (lc ! i))
      \<and> (\<forall>p \<in> set lc. snd p \<le> snd (lc ! i))"
proof (induction lc arbitrary: m ml)
  case Nil
  then show ?case by simp
next
  case (Cons a rest)
  obtain lane c where a: "a = (lane, c)" by (cases a)
  show ?case
  proof (cases "m < c")
    case True
    show ?thesis
    proof (cases "\<exists>p \<in> set rest. c < snd p")
      case False
      then have "\<forall>p \<in> set rest. snd p \<le> c" by auto
      then have "max_scan rest (c, Some lane) = (c, Some lane)" by (rule max_scan_none)
      with True False a show ?thesis by (intro exI[of _ 0]) auto
    next
      case ex: True
      from Cons.IH[OF ex, of "Some lane"] obtain i where i: "i < length rest"
        "max_scan rest (c, Some lane) = (snd (rest ! i), Some (fst (rest ! i)))"
        "c < snd (rest ! i)" "\<forall>j < i. snd (rest ! j) < snd (rest ! i)"
        "\<forall>p \<in> set rest. snd p \<le> snd (rest ! i)" by blast
      have "\<forall>j < Suc i. snd ((a # rest) ! j) < snd (rest ! i)"
        using i(3,4) a by (auto simp: less_Suc_eq_0_disj)
      with i True a show ?thesis by (intro exI[of _ "Suc i"]) auto
    qed
  next
    case False
    with Cons.prems a have ex: "\<exists>p \<in> set rest. m < snd p" by auto
    from Cons.IH[OF ex, of ml] obtain i where i: "i < length rest"
        "max_scan rest (m, ml) = (snd (rest ! i), Some (fst (rest ! i)))"
        "m < snd (rest ! i)" "\<forall>j < i. snd (rest ! j) < snd (rest ! i)"
        "\<forall>p \<in> set rest. snd p \<le> snd (rest ! i)" by blast
    have "\<forall>j < Suc i. snd ((a # rest) ! j) < snd (rest ! i)"
      using i(3,4) a False by (auto simp: less_Suc_eq_0_disj)
    with i False a show ?thesis by (intro exI[of _ "Suc i"]) auto
  qed
qed

text \<open>
  \<^bold>\<open>C1.\<close> For every lane-counts mapping with at least one strictly positive count,
  \<^verbatim>\<open>get_lane_with_max_vehicles\<close> (of either controller, whatever the engine
  answers) returns the lane at the first position, in the iteration order of the
  mapping, whose count equals the maximum count: every earlier lane has a strictly
  smaller count, so a later lane with an equal count never replaces it.
\<close>

theorem get_lane_with_max_vehicles_first_max:
  assumes "\<exists>p \<in> set lc. 0 < snd p"
  shows "\<exists>i < length lc.
           snd (lc ! i) = Max (snd ` set lc)
         \<and> (\<forall>j < i. snd (lc ! j) < Max (snd ` set lc))
         \<and> sumo_get_lane_with_max_vehicles t lc = Inr (fst (lc ! i))
         \<and> tc_get_lane_with_max_vehicles t' lc = fst (lc ! i)"
proof -
  from max_scan_first[OF assms, of None] obtain i where i: "i < length lc"
    "max_scan lc (0, None) = (snd (lc ! i), Some (fst (lc ! i)))"
    "0 < snd (lc ! i)" "\<forall>j < i. snd (lc ! j) < snd (lc ! i)"
    "\<forall>p \<in> set lc. snd p \<le> snd (lc ! i)" by blast
  have mx: "Max (snd ` set lc) = snd (lc ! i)"
    using i(1,5) by (intro Max_eqI) auto
  show ?thesis
    using i mx
    by (intro exI[of _ i])
       (simp add: sumo_get_lane_with_max_vehicles_def tc_get_lane_with_max_vehicles_def)
qed

text \<open>
  The two examples of the specification, derived from the theorem: for
  \<^verbatim>\<open>{A:3, B:5, C:5}\<close> the selector returns \<^verbatim>\<open>B\<close>, for \<^verbatim>\<open>{A:5, B:3, C:3}\<close> it
  returns \<^verbatim>\<open>A\<close>.
\<close>

theorem get_lane_with_max_vehicles_first_max_witness:
  "(\<exists>p \<in> set [(''A'', 3::int), (''B'', 5), (''C'', 5)]. 0 < snd p)
   \<and> sumo_get_lane_with_max_vehicles (engine 0 0 0 0) [(''A'', 3), (''B'', 5), (''C'', 5)] = Inr ''B''
   \<and> tc_get_lane_with_max_vehicles (engine 0 0 0 0) [(''A'', 3), (''B'', 5), (''C'', 5)] = ''B''
   \<and> sumo_get_lane_with_max_vehicles (engine 0 0 0 0) [(''A'', 5), (''B'', 3), (''C'', 3)] = Inr ''A''
   \<and> tc_get_lane_with_max_vehicles (engine 0 0 0 0) [(''A'', 5), (''B'', 3), (''C'', 3)] = ''A''"
proof -
  let ?lc = "[(''A'', 3::int), (''B'', 5), (''C'', 5)]"
  let ?lc' = "[(''A'', 5::int), (''B'', 3), (''C'', 3)]"
  have h: "\<exists>p \<in> set ?lc. 0 < snd p" by simp
  have h': "\<exists>p \<in> set ?lc'. 0 < snd p" by simp
  have m: "Max (snd ` set ?lc) = 5" "Max (snd ` set ?lc') = 5" by simp_all
  from get_lane_with_max_vehicles_first_max[OF h, of "engine 0 0 0 0" "engine 0 0 0 0"]
  obtain i where i: "i < length ?lc" "snd (?lc ! i) = Max (snd ` set ?lc)"
    "\<forall>j < i. snd (?lc ! j) < Max (snd ` set ?lc)"
    "sumo_get_lane_with_max_vehicles (engine 0 0 0 0) ?lc = Inr (fst (?lc ! i))"
    "tc_get_lane_with_max_vehicles (engine 0 0 0 0) ?lc = fst (?lc ! i)"
    by blast
  from i(1) have "i = 0 \<or> i = 1 \<or> i = 2" by auto
  moreover have "i \<noteq> 0"
  proof
    assume "i = 0"
    with i(2) m(1) show False by simp
  qed
  moreover have "i \<noteq> 2"
  proof
    assume "i = 2"
    with i(3) have "(1::nat) < 2 \<longrightarrow> snd (?lc ! 1) < Max (snd ` set ?lc)" by blast
    with m(1) have "snd (?lc ! 1) < 5" by simp
    then show False by simp
  qed
  ultimately have i1: "i = 1" by blast
  from get_lane_with_max_vehicles_first_max[OF h', of "engine 0 0 0 0" "engine 0 0 0 0"]
  obtain k where k: "k < length ?lc'" "snd (?lc' ! k) = Max (snd ` set ?lc')"
    "sumo_get_lane_with_max_vehicles (engine 0 0 0 0) ?lc' = Inr (fst (?lc' ! k))"
    "tc_get_lane_with_max_vehicles (engine 0 0 0 0) ?lc' = fst (?lc' ! k)"
    by blast
  from k(1) have "k = 0 \<or> k = 1 \<or> k = 2" by auto
  moreover have "k \<noteq> 1"
  proof
    assume "k = 1"
    with k(2) m(2) show False by simp
  qed
  moreover have "k \<noteq> 2"
  proof
    assume "k = 2"
    with k(2) m(2) show False by simp
  qed
  ultimately have k0: "k = 0" by blast
  show ?thesis using h i(4,5) i1 k(3,4) k0 by simp
qed

text \<open>
  \<^bold>\<open>C3.\<close> For lane-counts mappings in which no lane has a strictly positive count,
  the selection is keyed off the engine's current phase alone (two engines that
  report the same phase give the same selection, whatever the non-positive counts),
  and when the current phase is the one \<^verbatim>\<open>LANE_PHASE_MAPPING\<close> gives to lane
  \<^verbatim>\<open>A\<close>, the selection is the lane after \<^verbatim>\<open>A\<close> in the fixed cycle of lanes, which
  is never \<^verbatim>\<open>A\<close> itself.
\<close>

theorem round_robin_fallback:
  assumes "\<forall>p \<in> set lc. snd p \<le> 0" and "\<forall>p \<in> set lc'. snd p \<le> 0"
    and "getPhase t' = getPhase t"
  shows "sumo_get_lane_with_max_vehicles t' lc' = sumo_get_lane_with_max_vehicles t lc
       \<and> tc_get_lane_with_max_vehicles t' lc' = tc_get_lane_with_max_vehicles t lc
       \<and> (\<forall>ph A. getPhase t = Inr ph \<and> sumo_LANE_PHASE_MAPPING A = Some ph \<longrightarrow>
            (\<exists>B. sumo_get_lane_with_max_vehicles t lc = Inr B
                 \<and> cyclic_next sumo_lane_cycle A = Some B \<and> B \<noteq> A))
       \<and> (\<forall>ph A. getPhase t = Inr ph \<and> tc_LANE_PHASE_MAPPING A = Some ph \<longrightarrow>
            cyclic_next tc_lane_cycle A = Some (tc_get_lane_with_max_vehicles t lc)
            \<and> tc_get_lane_with_max_vehicles t lc \<noteq> A)"
proof -
  have s: "max_scan lc (0, None) = (0, None)" "max_scan lc' (0, None) = (0, None)"
    using assms(1,2) by (simp_all add: max_scan_none)
  have 1: "sumo_get_lane_with_max_vehicles t' lc' = sumo_get_lane_with_max_vehicles t lc"
    using s assms(3) by (simp add: sumo_get_lane_with_max_vehicles_def)
  have 2: "tc_get_lane_with_max_vehicles t' lc' = tc_get_lane_with_max_vehicles t lc"
    using s assms(3) by (simp add: tc_get_lane_with_max_vehicles_def tc_round_robin_def)
  have 3: "\<exists>B. sumo_get_lane_with_max_vehicles t lc = Inr B
                 \<and> cyclic_next sumo_lane_cycle A = Some B \<and> B \<noteq> A"
    if "getPhase t = Inr ph" "sumo_LANE_PHASE_MAPPING A = Some ph" for ph A
    using that s
    by (auto simp: sumo_get_lane_with_max_vehicles_def sumo_LANE_PHASE_MAPPING_def
          sumo_lane_cycle_def split: if_splits)
  have 4: "cyclic_next tc_lane_cycle A = Some (tc_get_lane_with_max_vehicles t lc)
            \<and> tc_get_lane_with_max_vehicles t lc \<noteq> A"
    if "getPhase t = Inr ph" "tc_LANE_PHASE_MAPPING A = Some ph" for ph A
    using that s
    by (auto simp: tc_get_lane_with_max_vehicles_def tc_round_robin_def
          tc_LANE_PHASE_MAPPING_def tc_lane_cycle_def split: if_splits)
  show ?thesis using 1 2 3 4 by blast
qed

text \<open>
  With all counts zero and the signal in phase 2: the controller of
  \<^verbatim>\<open>sumo_code.py\<close> (phase 2 is the green of \<^verbatim>\<open>E1_0\<close>) selects \<^verbatim>\<open>E0_0\<close>, and the
  controller of \<^verbatim>\<open>traffic_control.py\<close> (phase 2 is the green of \<^verbatim>\<open>lane3_0\<close>)
  selects \<^verbatim>\<open>lane1_0\<close>.
\<close>

theorem round_robin_fallback_witness:
  "sumo_get_lane_with_max_vehicles (engine 0 0 0 2) [(''-E0_0'', 0), (''E1_0'', 0), (''E0_0'', 0)]
     = Inr ''E0_0''
   \<and> tc_get_lane_with_max_vehicles (engine 0 0 0 2) [(''lane1_0'', 0), (''lane2_0'', 0), (''lane3_0'', 0)]
     = ''lane1_0''"
proof -
  let ?s = "[(''-E0_0'', 0::int), (''E1_0'', 0), (''E0_0'', 0)]"
  let ?c = "[(''lane1_0'', 0::int), (''lane2_0'', 0), (''lane3_0'', 0)]"
  have hs: "\<forall>p \<in> set ?s. snd p \<le> 0" and hc: "\<forall>p \<in> set ?c. snd p \<le> 0" by simp_all
  have ph: "getPhase (engine 0 0 0 2) = Inr 2" by (simp add: engine_def)
  have ms: "sumo_LANE_PHASE_MAPPING ''E1_0'' = Some 2"
    by (simp add: sumo_LANE_PHASE_MAPPING_def)
  have mc: "tc_LANE_PHASE_MAPPING ''lane3_0'' = Some 2"
    by (simp add: tc_LANE_PHASE_MAPPING_def)
  from round_robin_fallback[OF hs hs refl] ph ms
  obtain B where "sumo_get_lane_with_max_vehicles (engine 0 0 0 2) ?s = Inr B"
    "cyclic_next sumo_lane_cycle ''E1_0'' = Some B" by blast
  then have 1: "sumo_get_lane_with_max_vehicles (engine 0 0 0 2) ?s = Inr ''E0_0''"
    by (simp add: sumo_lane_cycle_def)
  from round_robin_fallback[OF hc hc refl] ph mc
  have "cyclic_next tc_lane_cycle ''lane3_0''
          = Some (tc_get_lane_with_max_vehicles (engine 0 0 0 2) ?c)" by blast
  then have 2: "tc_get_lane_with_max_vehicles (engine 0 0 0 2) ?c = ''lane1_0''"
    by (simp add: tc_lane_cycle_def)
  show ?thesis using 1 2 by simp
qed

section \<open>The selected lane always has a phase (\<^verbatim>\<open>sumo_code.py\<close>)\<close>

text \<open>A lane the scan returns is the lane it started with or a key of the mapping.\<close>

lemma max_scan_lane:
  "max_scan lc (m, ml) = (m', Some l) \<Longrightarrow> ml = Some l \<or> l \<in> fst ` set lc"
proof (induction lc arbitrary: m ml)
  case Nil
  then show ?case by simp
next
  case (Cons a rest)
  obtain lane c where a: "a = (lane, c)" by (cases a)
  show ?case
  proof (cases "c > m")
    case True
    with Cons.prems a have "max_scan rest (c, Some lane) = (m', Some l)" by simp
    from Cons.IH[OF this] a show ?thesis by auto
  next
    case False
    with Cons.prems a have "max_scan rest (m, ml) = (m', Some l)" by simp
    from Cons.IH[OF this] show ?thesis by auto
  qed
qed

text \<open>
  \<^bold>\<open>C9.\<close> For every lane-counts mapping that \<^verbatim>\<open>count_vehicles_per_lane\<close> of
  \<^verbatim>\<open>sumo_code.py\<close> produces, every lane \<^verbatim>\<open>get_lane_with_max_vehicles\<close> returns for
  it (on the maximum path and on the round-robin path) is a key of
  \<^verbatim>\<open>LANE_PHASE_MAPPING\<close>: \<^verbatim>\<open>set_traffic_lights\<close> does not skip, it issues
  \<^verbatim>\<open>setPhase\<close> with the phase of that lane, and so does the decision block of the
  main loop.
\<close>

theorem selected_lane_has_phase:
  assumes "sumo_count_vehicles_per_lane t = Inr lc"
    and "sumo_get_lane_with_max_vehicles t' lc = Inr lane"
  shows "\<exists>phase. sumo_LANE_PHASE_MAPPING lane = Some phase
           \<and> fst (sumo_set_traffic_lights t'' lane) = [SetPhase ''J2'' phase]
           \<and> fst (sumo_decide t' lc) = [SetPhase ''J2'' phase]"
proof -
  from assms(1) have keys: "fst ` set lc = {''-E0_0'', ''E1_0'', ''E0_0''}"
    by (auto simp: sumo_count_vehicles_per_lane_def split: sum.splits)
  have "lane \<in> {''-E0_0'', ''E1_0'', ''E0_0''}"
  proof (cases "max_scan lc (0, None)")
    case (Pair m ml)
    show ?thesis
    proof (cases ml)
      case None
      with Pair assms(2) show ?thesis
        by (auto simp: sumo_get_lane_with_max_vehicles_def split: sum.splits if_splits)
    next
      case (Some l)
      with Pair assms(2) have "l = lane" by (simp add: sumo_get_lane_with_max_vehicles_def)
      with Pair Some max_scan_lane[of lc 0 None m lane] keys show ?thesis by auto
    qed
  qed
  then obtain phase where p: "sumo_LANE_PHASE_MAPPING lane = Some phase"
    by (auto simp: sumo_LANE_PHASE_MAPPING_def)
  then show ?thesis using assms(2)
    by (simp add: sumo_set_traffic_lights_def sumo_decide_def)
qed

theorem selected_lane_has_phase_witness:
  "sumo_count_vehicles_per_lane (engine 2 7 7 0) = Inr [(''-E0_0'', 2), (''E1_0'', 7), (''E0_0'', 7)]
   \<and> sumo_get_lane_with_max_vehicles (engine 2 7 7 0) [(''-E0_0'', 2), (''E1_0'', 7), (''E0_0'', 7)]
       = Inr ''E1_0''
   \<and> (\<exists>phase. sumo_LANE_PHASE_MAPPING ''E1_0'' = Some phase
         \<and> fst (sumo_set_traffic_lights (engine 2 7 7 0) ''E1_0'') = [SetPhase ''J2'' phase]
         \<and> fst (sumo_decide (engine 2 7 7 0) [(''-E0_0'', 2), (''E1_0'', 7), (''E0_0'', 7)])
             = [SetPhase ''J2'' phase])"
proof -
  have a: "sumo_count_vehicles_per_lane (engine 2 7 7 0)
             = Inr [(''-E0_0'', 2), (''E1_0'', 7), (''E0_0'', 7)]"
    by (simp add: sumo_count_vehicles_per_lane_def engine_def)
  have b: "sumo_get_lane_with_max_vehicles (engine 2 7 7 0)
             [(''-E0_0'', 2), (''E1_0'', 7), (''E0_0'', 7)] = Inr ''E1_0''"
    by (simp add: sumo_get_lane_with_max_vehicles_def)
  show ?thesis using a b selected_lane_has_phase[OF a b, of "engine 2 7 7 0"] by simp
qed

section \<open>The control loops and the actuator\<close>

lemma engine_fields:
  "getMinExpectedNumber (engine a b c ph) = Inr 1"
  "getPhase (engine a b c ph) = Inr ph"
  "setPhase (engine a b c ph) tls p = Inr ()"
  "simulationStep (engine a b c ph) = Inr ()"
  by (simp_all add: engine_def)

lemma tc_count_engine:
  "tc_count_vehicles_per_lane (engine a b c ph) =
     Inr [(''lane1_0'', a), (''lane2_0'', b), (''lane3_0'', c)]"
  by (simp add: tc_count_vehicles_per_lane_def engine_def)

lemma sumo_count_engine:
  "sumo_count_vehicles_per_lane (engine a b c ph) =
     Inr [(''-E0_0'', a), (''E1_0'', b), (''E0_0'', c)]"
  by (simp add: sumo_count_vehicles_per_lane_def engine_def)

subsection \<open>The decision block of \<^verbatim>\<open>traffic_control.py\<close>\<close>

lemma tc_decide_calls:
  "fst (tc_decide t lc s) \<noteq> [] \<Longrightarrow>
     (step s mod 50 = 0 \<or> green_time s \<ge> 50)
     \<and> Some (tc_get_lane_with_max_vehicles t lc) \<noteq> current_green_lane s"
  by (auto simp: tc_decide_def Let_def split: if_splits prod.splits option.splits)

lemma tc_decide_inv:
  assumes "tc_inv s" and "tc_decide t lc s = (calls, None, s1)"
  shows "step s1 = step s"
    and "current_green_lane s1 \<noteq> None"
    and "green_time s1 = (if step s mod 50 = 0 then 0 else step s mod 50)"
    and "status s1 = status s"
proof -
  have "step s1 = step s \<and> current_green_lane s1 \<noteq> None
      \<and> green_time s1 = (if step s mod 50 = 0 then 0 else step s mod 50)
      \<and> status s1 = status s"
  proof (cases "step s mod 50 = 0 \<or> green_time s \<ge> 50")
    case True
    with assms(1) have m: "step s mod 50 = 0"
      by (auto simp: tc_inv_def split: if_splits)
    show ?thesis
    proof (cases "Some (tc_get_lane_with_max_vehicles t lc) \<noteq> current_green_lane s")
      case ne: True
      obtain cs eo where st: "tc_set_traffic_lights t (tc_get_lane_with_max_vehicles t lc) = (cs, eo)"
        by (cases "tc_set_traffic_lights t (tc_get_lane_with_max_vehicles t lc)")
      with assms(2) True ne m show ?thesis
        by (cases eo) (auto simp: tc_decide_def Let_def)
    next
      case eq: False
      then have "current_green_lane s \<noteq> None" by (metis option.distinct(1))
      with assms(2) True eq m show ?thesis
        by (auto simp: tc_decide_def Let_def)
    qed
  next
    case False
    with assms(2) have "s1 = s" by (simp add: tc_decide_def)
    with False assms(1) show ?thesis by (auto simp: tc_inv_def split: if_splits)
  qed
  then show "step s1 = step s" "current_green_lane s1 \<noteq> None"
    "green_time s1 = (if step s mod 50 = 0 then 0 else step s mod 50)"
    "status s1 = status s" by simp_all
qed

lemma tc_loop_body_running:
  assumes "status (snd (tc_loop_body t s)) = Running"
  shows "\<exists>lc calls s1. tc_count_vehicles_per_lane t = Inr lc
           \<and> tc_decide t lc s = (calls, None, s1)
           \<and> tc_loop_body t s = (calls, s1\<lparr>step := step s1 + 1, green_time := green_time s1 + 1\<rparr>)"
proof (cases "tc_count_vehicles_per_lane t")
  case (Inl e)
  with assms show ?thesis by (simp add: tc_loop_body_def)
next
  case (Inr lc)
  show ?thesis
  proof (cases "if step s mod 10 = 0 then getPhase t else Inr 0")
    case (Inl e)
    with Inr assms show ?thesis by (simp add: tc_loop_body_def)
  next
    case pr: (Inr p)
    obtain calls eo s1 where d: "tc_decide t lc s = (calls, eo, s1)"
      by (cases "tc_decide t lc s") auto
    show ?thesis
    proof (cases eo)
      case (Some e)
      with Inr pr d assms show ?thesis by (simp add: tc_loop_body_def)
    next
      case None
      show ?thesis
      proof (cases "simulationStep t")
        case (Inl e)
        with Inr pr d None assms show ?thesis by (simp add: tc_loop_body_def)
      next
        case st: (Inr u)
        with Inr pr d None show ?thesis by (simp add: tc_loop_body_def)
      qed
    qed
  qed
qed

lemma tc_iteration_running:
  assumes "status (snd (tc_iteration t s)) = Running"
  shows "\<exists>lc calls s1. tc_count_vehicles_per_lane t = Inr lc
           \<and> tc_decide t lc s = (calls, None, s1)
           \<and> snd (tc_iteration t s) = s1\<lparr>step := step s1 + 1, green_time := green_time s1 + 1\<rparr>"
proof (cases "getMinExpectedNumber t")
  case (Inl e)
  with assms show ?thesis by (simp add: tc_iteration_def)
next
  case (Inr n)
  show ?thesis
  proof (cases "n > 0")
    case False
    with Inr assms show ?thesis by (simp add: tc_iteration_def)
  next
    case True
    with Inr have e: "tc_iteration t s = tc_loop_body t s" by (simp add: tc_iteration_def)
    with assms tc_loop_body_running[of t s] show ?thesis by auto
  qed
qed

subsection \<open>The invariant\<close>

lemma tc_iteration_inv:
  assumes "tc_inv s" and "status s = Running"
    and "status (snd (tc_iteration t s)) = Running"
  shows "tc_inv (snd (tc_iteration t s))"
proof -
  from tc_iteration_running[OF assms(3)] obtain lc calls s1 where
    d: "tc_decide t lc s = (calls, None, s1)"
    and r: "snd (tc_iteration t s) = s1\<lparr>step := step s1 + 1, green_time := green_time s1 + 1\<rparr>"
    by blast
  note f = tc_decide_inv[OF assms(1) d]
  have m: "(step s + 1) mod 50 = (if step s mod 50 = 49 then 0 else step s mod 50 + 1)"
    by (simp add: mod_Suc)
  have lt: "step s mod 50 < 50" by simp
  show ?thesis
  proof (cases "step s mod 50 = 0")
    case True
    with f r m show ?thesis by (simp add: tc_inv_def)
  next
    case False
    show ?thesis
    proof (cases "step s mod 50 = 49")
      case True
      with False f r m show ?thesis by (simp add: tc_inv_def)
    next
      case n49: False
      with False f r m show ?thesis by (simp add: tc_inv_def)
    qed
  qed
qed

lemma tc_main_loop_inv:
  "tc_inv s \<Longrightarrow> status (snd (tc_main_loop ts s)) = Running \<Longrightarrow> tc_inv (snd (tc_main_loop ts s))"
proof (induction ts arbitrary: s)
  case Nil
  then show ?case by simp
next
  case (Cons t ts)
  show ?case
  proof (cases "status s = Running")
    case False
    with Cons.prems show ?thesis by simp
  next
    case True
    obtain calls s' where it: "tc_iteration t s = (calls, s')" by (cases "tc_iteration t s")
    obtain calls' s'' where ml: "tc_main_loop ts s' = (calls', s'')"
      by (cases "tc_main_loop ts s'")
    from True it ml have res: "snd (tc_main_loop (t # ts) s) = snd (tc_main_loop ts s')"
      by simp
    have run': "status s' = Running"
    proof (rule ccontr)
      assume n: "status s' \<noteq> Running"
      then have "tc_main_loop ts s' = ([], s')" by (cases ts) auto
      with res Cons.prems(2) n show False by simp
    qed
    from tc_iteration_inv[OF Cons.prems(1) True, of t] it run' have "tc_inv s'" by simp
    from Cons.IH[OF this] res Cons.prems(2) show ?thesis by simp
  qed
qed

lemma tc_reachable_inv: "tc_reachable s \<Longrightarrow> tc_inv s"
proof -
  assume "tc_reachable s"
  then obtain ts where "snd (tc_main_loop ts tc_init) = s" "status s = Running"
    by (auto simp: tc_reachable_def)
  moreover have "tc_inv tc_init" by (simp add: tc_inv_def tc_init_def)
  ultimately show ?thesis using tc_main_loop_inv[of tc_init ts] by auto
qed


subsection \<open>When an iteration issues a call\<close>

lemma tc_iteration_calls:
  assumes "fst (tc_iteration t s) \<noteq> []"
  shows "\<exists>lc. tc_count_vehicles_per_lane t = Inr lc \<and> fst (tc_decide t lc s) \<noteq> []"
proof (cases "getMinExpectedNumber t")
  case (Inl e)
  with assms show ?thesis by (simp add: tc_iteration_def)
next
  case (Inr n)
  show ?thesis
  proof (cases "n > 0")
    case False
    with Inr assms show ?thesis by (simp add: tc_iteration_def)
  next
    case True
    with Inr assms have b: "fst (tc_loop_body t s) \<noteq> []" by (simp add: tc_iteration_def)
    show ?thesis
    proof (cases "tc_count_vehicles_per_lane t")
      case (Inl e)
      with b show ?thesis by (simp add: tc_loop_body_def)
    next
      case lc: (Inr lc)
      show ?thesis
      proof (cases "if step s mod 10 = 0 then getPhase t else Inr 0")
        case (Inl e)
        with lc b show ?thesis by (simp add: tc_loop_body_def)
      next
        case pr: (Inr p)
        obtain calls eo s1 where d: "tc_decide t lc s = (calls, eo, s1)"
          by (cases "tc_decide t lc s") auto
        with lc pr b have "calls \<noteq> []"
          by (cases eo; cases "simulationStep t") (auto simp: tc_loop_body_def)
        with lc d show ?thesis by simp
      qed
    qed
  qed
qed

lemma tc_decide_idle:
  "\<not> (step s mod 50 = 0 \<or> green_time s \<ge> 50) \<Longrightarrow> tc_decide t lc s = ([], None, s)"
  by (simp add: tc_decide_def)

lemma tc_iteration_idle:
  assumes "\<not> (step s mod 50 = 0 \<or> green_time s \<ge> 50)"
  shows "fst (tc_iteration t s) = []
       \<and> current_green_lane (snd (tc_iteration t s)) = current_green_lane s"
proof -
  have d: "\<And>lc. tc_decide t lc s = ([], None, s)" using assms by (rule tc_decide_idle)
  show ?thesis
    by (cases "getMinExpectedNumber t"; cases "tc_count_vehicles_per_lane t";
        cases "if step s mod 10 = 0 then getPhase t else Inr 0"; cases "simulationStep t")
       (simp_all add: tc_iteration_def tc_loop_body_def d)
qed

lemma sumo_iteration_calls:
  assumes "fst (sumo_iteration t s) \<noteq> []"
  shows "sumo_step s mod 30 = 0"
proof (rule ccontr)
  assume n: "sumo_step s mod 30 \<noteq> 0"
  have "fst (sumo_iteration t s) = []"
    by (cases "getMinExpectedNumber t"; cases "sumo_count_vehicles_per_lane t";
        cases "simulationStep t")
       (simp_all add: sumo_iteration_def n)
  with assms show False by simp
qed

lemma tc_first_iteration:
  "tc_iteration (engine 5 3 3 0) tc_init = ([SetPhase ''tls'' 0], tc_after_first)"
  by (simp add: tc_iteration_def tc_loop_body_def tc_decide_def tc_count_engine
        tc_get_lane_with_max_vehicles_def tc_set_traffic_lights_def tc_LANE_PHASE_MAPPING_def
        tc_init_def tc_after_first_def Let_def engine_fields)

lemma tc_after_first_reachable: "tc_reachable tc_after_first"
proof -
  have "snd (tc_main_loop [engine 5 3 3 0] tc_init) = tc_after_first"
    using tc_first_iteration by (simp add: tc_init_def)
  moreover have "status tc_after_first = Running" by (simp add: tc_after_first_def)
  ultimately show ?thesis unfolding tc_reachable_def by blast
qed

lemma tc_init_reachable: "tc_reachable tc_init"
proof -
  have "snd (tc_main_loop [] tc_init) = tc_init \<and> status tc_init = Running"
    by (simp add: tc_init_def)
  then show ?thesis unfolding tc_reachable_def by blast
qed

text \<open>
  The loop of \<^verbatim>\<open>sumo_code.py\<close> against an engine that keeps answering the same:
  an iteration issues \<^verbatim>\<open>setPhase\<close> exactly on the steps divisible by 30.
\<close>

lemma sumo_iteration_engine:
  "sumo_iteration (engine 5 3 3 0) \<lparr>sumo_step = k, sumo_status = Running\<rparr> =
     ((if k mod 30 = 0 then [SetPhase ''J2'' 0] else []),
      \<lparr>sumo_step = k + 1, sumo_status = Running\<rparr>)"
  by (simp add: sumo_iteration_def sumo_decide_def sumo_count_engine engine_fields
        sumo_get_lane_with_max_vehicles_def sumo_set_traffic_lights_def
        sumo_LANE_PHASE_MAPPING_def)

lemma sumo_main_loop_quiet:
  "0 < k \<Longrightarrow> k + n \<le> 30 \<Longrightarrow>
   sumo_main_loop (replicate n (engine 5 3 3 0)) \<lparr>sumo_step = k, sumo_status = Running\<rparr> =
     ([], \<lparr>sumo_step = k + n, sumo_status = Running\<rparr>)"
proof (induction n arbitrary: k)
  case 0
  then show ?case by simp
next
  case (Suc n)
  from Suc.prems have "k mod 30 \<noteq> 0" by simp
  moreover from Suc.prems have "0 < k + 1" "k + 1 + n \<le> 30" by simp_all
  ultimately show ?case using Suc.IH[of "k + 1"] by (simp add: sumo_iteration_engine)
qed

lemma sumo_main_loop_30:
  "sumo_main_loop (replicate 30 (engine 5 3 3 0)) sumo_init =
     ([SetPhase ''J2'' 0], \<lparr>sumo_step = 30, sumo_status = Running\<rparr>)"
proof -
  have r: "replicate 30 (engine 5 3 3 0) = engine 5 3 3 0 # replicate 29 (engine 5 3 3 0)"
    by (simp add: numeral_eq_Suc)
  have "sumo_main_loop (replicate 29 (engine 5 3 3 0)) \<lparr>sumo_step = 1, sumo_status = Running\<rparr>
          = ([], \<lparr>sumo_step = 1 + 29, sumo_status = Running\<rparr>)"
    by (rule sumo_main_loop_quiet) simp_all
  then show ?thesis
    unfolding r by (simp add: sumo_init_def sumo_iteration_engine)
qed

text \<open>
  \<^bold>\<open>C2\<close>, as stated, fails on both loops. In \<^verbatim>\<open>sumo_code.py\<close>: after 30 steps against
  an engine whose lanes hold 5, 3 and 3 vehicles the only call so far granted green
  to \<^verbatim>\<open>-E0_0\<close> (phase 0), the engine reports phase 0, the selected lane is again
  \<^verbatim>\<open>-E0_0\<close>, and the iteration issues \<^verbatim>\<open>setPhase\<close> all the same. In
  \<^verbatim>\<open>traffic_control.py\<close>: the first iteration issues \<^verbatim>\<open>setPhase\<close> with
  \<^verbatim>\<open>green_time\<close> 0, below the minimum of 50.
\<close>

theorem setPhase_gated_counterexample:
  "sumo_main_loop (replicate 30 (engine 5 3 3 0)) sumo_init =
     ([SetPhase ''J2'' 0], \<lparr>sumo_step = 30, sumo_status = Running\<rparr>)
   \<and> getPhase (engine 5 3 3 0) = Inr 0
   \<and> sumo_LANE_PHASE_MAPPING ''-E0_0'' = Some 0
   \<and> sumo_count_vehicles_per_lane (engine 5 3 3 0)
        = Inr [(''-E0_0'', 5), (''E1_0'', 3), (''E0_0'', 3)]
   \<and> sumo_get_lane_with_max_vehicles (engine 5 3 3 0)
        [(''-E0_0'', 5), (''E1_0'', 3), (''E0_0'', 3)] = Inr ''-E0_0''
   \<and> fst (sumo_iteration (engine 5 3 3 0) \<lparr>sumo_step = 30, sumo_status = Running\<rparr>)
        = [SetPhase ''J2'' 0]
   \<and> tc_reachable tc_init
   \<and> green_time tc_init = 0
   \<and> fst (tc_iteration (engine 5 3 3 0) tc_init) = [SetPhase ''tls'' 0]"
  using sumo_main_loop_30 tc_init_reachable tc_first_iteration
  by (simp add: sumo_iteration_engine sumo_count_engine engine_fields
        sumo_LANE_PHASE_MAPPING_def sumo_get_lane_with_max_vehicles_def tc_init_def)

text \<open>
  \<^bold>\<open>C2\<close>, amended. In every reachable state of the loop of \<^verbatim>\<open>traffic_control.py\<close>,
  an iteration issues \<^verbatim>\<open>setPhase\<close> only on a decision tick (\<^verbatim>\<open>step % 50 == 0\<close> or
  \<^verbatim>\<open>green_time >= 50\<close>) on which the selected lane differs from
  \<^verbatim>\<open>current_green_lane\<close>, and, once a lane has been granted green, only when
  \<^verbatim>\<open>green_time\<close> has reached 50. If the selected lane is the current green lane,
  no call is issued on that tick; if lane \<^verbatim>\<open>A\<close> is green with \<^verbatim>\<open>green_time\<close> below
  50, no call is issued and \<^verbatim>\<open>A\<close> stays the green lane, whatever the counts. The
  loop of \<^verbatim>\<open>sumo_code.py\<close> has no such gate: it issues \<^verbatim>\<open>setPhase\<close> only on the
  steps divisible by 30.
\<close>

theorem setPhase_gated:
  assumes "tc_reachable s"
  shows "(fst (tc_iteration t s) \<noteq> [] \<longrightarrow>
            (\<exists>lc. tc_count_vehicles_per_lane t = Inr lc
                 \<and> Some (tc_get_lane_with_max_vehicles t lc) \<noteq> current_green_lane s)
          \<and> (step s mod 50 = 0 \<or> green_time s \<ge> 50)
          \<and> (current_green_lane s \<noteq> None \<longrightarrow> green_time s \<ge> 50))
       \<and> (\<forall>lc. tc_count_vehicles_per_lane t = Inr lc
               \<and> Some (tc_get_lane_with_max_vehicles t lc) = current_green_lane s
             \<longrightarrow> fst (tc_iteration t s) = [])
       \<and> (\<forall>A. current_green_lane s = Some A \<and> green_time s < 50
             \<longrightarrow> fst (tc_iteration t s) = []
               \<and> current_green_lane (snd (tc_iteration t s)) = Some A)
       \<and> (fst (sumo_iteration t' s') \<noteq> [] \<longrightarrow> sumo_step s' mod 30 = 0)"
proof -
  from assms have inv: "tc_inv s" by (rule tc_reachable_inv)
  have 1: "(\<exists>lc. tc_count_vehicles_per_lane t = Inr lc
                 \<and> Some (tc_get_lane_with_max_vehicles t lc) \<noteq> current_green_lane s)
          \<and> (step s mod 50 = 0 \<or> green_time s \<ge> 50)
          \<and> (current_green_lane s \<noteq> None \<longrightarrow> green_time s \<ge> 50)"
    if c: "fst (tc_iteration t s) \<noteq> []"
  proof -
    from tc_iteration_calls[OF c] obtain lc where
      lc: "tc_count_vehicles_per_lane t = Inr lc" "fst (tc_decide t lc s) \<noteq> []" by blast
    from tc_decide_calls[OF lc(2)] have
      g: "step s mod 50 = 0 \<or> green_time s \<ge> 50"
      and ne: "Some (tc_get_lane_with_max_vehicles t lc) \<noteq> current_green_lane s" by simp_all
    from g inv have "current_green_lane s \<noteq> None \<longrightarrow> green_time s \<ge> 50"
      by (auto simp: tc_inv_def split: if_splits)
    with lc(1) g ne show ?thesis by blast
  qed
  have 2: "fst (tc_iteration t s) = []"
    if "tc_count_vehicles_per_lane t = Inr lc"
      "Some (tc_get_lane_with_max_vehicles t lc) = current_green_lane s" for lc
  proof (rule ccontr)
    assume "fst (tc_iteration t s) \<noteq> []"
    from tc_iteration_calls[OF this] that(1) have "fst (tc_decide t lc s) \<noteq> []" by auto
    from tc_decide_calls[OF this] that(2) show False by simp
  qed
  have 3: "fst (tc_iteration t s) = []
               \<and> current_green_lane (snd (tc_iteration t s)) = Some A"
    if "current_green_lane s = Some A" "green_time s < 50" for A
  proof -
    from that inv have "\<not> (step s mod 50 = 0 \<or> green_time s \<ge> 50)"
      by (auto simp: tc_inv_def split: if_splits)
    from tc_iteration_idle[OF this, of t] that(1) show ?thesis by simp
  qed
  have 4: "fst (sumo_iteration t' s') \<noteq> [] \<longrightarrow> sumo_step s' mod 30 = 0"
    using sumo_iteration_calls by blast
  show ?thesis using 1 2 3 4 by blast
qed

text \<open>
  Minimum green at work: after the first iteration granted green to \<^verbatim>\<open>lane1_0\<close>,
  counts of 3, 5 and 5 make \<^verbatim>\<open>lane2_0\<close> the selected lane, but with
  \<^verbatim>\<open>green_time\<close> 1 the iteration issues no call and \<^verbatim>\<open>lane1_0\<close> stays green.
\<close>

theorem setPhase_gated_witness:
  "tc_reachable tc_after_first
   \<and> tc_get_lane_with_max_vehicles (engine 3 5 5 0)
        [(''lane1_0'', 3), (''lane2_0'', 5), (''lane3_0'', 5)] = ''lane2_0''
   \<and> fst (tc_iteration (engine 3 5 5 0) tc_after_first) = []
   \<and> current_green_lane (snd (tc_iteration (engine 3 5 5 0) tc_after_first)) = Some ''lane1_0''"
proof -
  have g: "current_green_lane tc_after_first = Some ''lane1_0'' \<and> green_time tc_after_first < 50"
    by (simp add: tc_after_first_def)
  have sel: "tc_get_lane_with_max_vehicles (engine 3 5 5 0)
        [(''lane1_0'', 3), (''lane2_0'', 5), (''lane3_0'', 5)] = ''lane2_0''"
    by (simp add: tc_get_lane_with_max_vehicles_def)
  from setPhase_gated[OF tc_after_first_reachable, of "engine 3 5 5 0"] g
  have "fst (tc_iteration (engine 3 5 5 0) tc_after_first) = []
      \<and> current_green_lane (snd (tc_iteration (engine 3 5 5 0) tc_after_first)) = Some ''lane1_0''"
    by blast
  with tc_after_first_reachable sel show ?thesis by simp
qed

section \<open>Counting crossings\<close>

text \<open>The inner loop finds a match exactly when some retained record is close in space and time.\<close>

lemma already_counted_iff:
  "already_counted cx cy fidx rc \<longleftrightarrow>
     (\<exists>r \<in> set rc. \<bar>cx - fst (fst r)\<bar> < 30 \<and> \<bar>cy - snd (fst r)\<bar> < 30 \<and> fidx - snd r < 15)"
  by (induction rc) (auto simp: cooldown_frames_def)

lemma count_center_cases:
  "count_center (cx, cy) s =
     (if \<bar>cy - 550\<bar> < 6
         \<and> \<not> (\<exists>r \<in> set (recently_counted s).
               \<bar>cx - fst (fst r)\<bar> < 30 \<and> \<bar>cy - snd (fst r)\<bar> < 30 \<and> frame_idx s - snd r < 15)
      then s\<lparr>counter := counter s + 1,
             recently_counted := recently_counted s @ [((cx, cy), frame_idx s)]\<rparr>
      else s)"
  by (simp add: count_center_def already_counted_iff count_line_position_def offset_def)

lemma prune_fields:
  "counter (prune s) = counter s" "frame_idx (prune s) = frame_idx s"
  "recently_counted (prune s) = filter (\<lambda>r. frame_idx s - snd r < 15) (recently_counted s)"
  by (simp_all add: prune_def cooldown_frames_def case_prod_unfold)

text \<open>An empty frame only advances the frame number and prunes.\<close>

lemma frame_step_empty:
  "frame_step [] s =
     s\<lparr>frame_idx := frame_idx s + 1,
       recently_counted := filter (\<lambda>r. frame_idx s + 1 - snd r < 15) (recently_counted s)\<rparr>"
  by (simp add: frame_step_def prune_def cooldown_frames_def case_prod_unfold)

lemma run_empty_frames:
  "recently_counted s = [(c, f)] \<Longrightarrow> f \<le> frame_idx s \<Longrightarrow>
   run_frames (replicate n []) s =
     s\<lparr>frame_idx := frame_idx s + int n,
       recently_counted := (if n = 0 \<or> frame_idx s + int n - f < 15 then [(c, f)] else [])\<rparr>"
proof (induction n arbitrary: s)
  case 0
  then show ?case by simp
next
  case (Suc n)
  let ?s' = "frame_step [] s"
  show ?case
  proof (cases "frame_idx s + 1 - f < 15")
    case True
    with Suc.prems have r: "recently_counted ?s' = [(c, f)]" "f \<le> frame_idx ?s'"
      by (simp_all add: frame_step_empty)
    from Suc.IH[OF r] True show ?thesis by (auto simp: frame_step_empty)
  next
    case False
    with Suc.prems have r: "recently_counted ?s' = []" by (simp add: frame_step_empty)
    have e: "\<And>s. recently_counted s = [] \<Longrightarrow>
        run_frames (replicate n []) s = s\<lparr>frame_idx := frame_idx s + int n\<rparr>" for n
    proof (induction n)
      case 0
      then show ?case by simp
    next
      case (Suc n)
      then show ?case by (simp add: frame_step_empty)
    qed
    from e[OF r] False r show ?thesis
      by (auto simp: frame_step_empty)
  qed
qed


lemma run_frames_append: "run_frames (a @ b) s = run_frames b (run_frames a s)"
  by (induction a arbitrary: s) simp_all

lemma frame_step_first:
  assumes "\<bar>snd c1 - 550\<bar> < 6" and "recently_counted s = []"
  shows "frame_step [c1] s =
           s\<lparr>frame_idx := frame_idx s + 1, counter := counter s + 1,
             recently_counted := [(c1, frame_idx s + 1)]\<rparr>"
  using assms
  by (cases c1) (simp add: frame_step_def count_center_cases prune_def cooldown_frames_def)

lemma frame_step_second:
  assumes "\<bar>snd c2 - 550\<bar> < 6"
    and "recently_counted s = (if keep then [(c1, f)] else [])"
    and "\<not> keep \<longrightarrow> 15 \<le> frame_idx s + 1 - f"
  shows "counter (frame_step [c2] s) =
           counter s + (if \<bar>fst c2 - fst c1\<bar> < 30 \<and> \<bar>snd c2 - snd c1\<bar> < 30
                           \<and> frame_idx s + 1 - f < 15 then 0 else 1)"
  using assms
  by (cases c2) (auto simp: frame_step_def count_center_cases prune_fields)

lemma two_crossings_count:
  assumes c1: "\<bar>snd c1 - 550\<bar> < 6" and c2: "\<bar>snd c2 - 550\<bar> < 6"
    and e: "recently_counted s = []"
  shows "counter (run_frames (two_crossings c1 gap c2) s) =
           counter s + (if \<bar>fst c2 - fst c1\<bar> < 30 \<and> \<bar>snd c2 - snd c1\<bar> < 30 \<and> int gap < 15
                        then 1 else 2)"
proof (cases "gap = 0")
  case True
  obtain x1 y1 x2 y2 where p: "c1 = (x1, y1)" "c2 = (x2, y2)" by (cases c1, cases c2) auto
  from True c1 c2 e p show ?thesis
    by (simp add: two_crossings_def frame_step_def count_center_cases prune_fields)
next
  case False
  let ?s1 = "frame_step [c1] s"
  let ?f = "frame_idx s + 1"
  have s1: "?s1 = s\<lparr>frame_idx := ?f, counter := counter s + 1,
                     recently_counted := [(c1, ?f)]\<rparr>"
    using c1 e by (rule frame_step_first)
  then have r1: "recently_counted ?s1 = [(c1, ?f)]" "?f \<le> frame_idx ?s1" by simp_all
  let ?s2 = "run_frames (replicate (gap - 1) []) ?s1"
  let ?keep = "gap - 1 = 0 \<or> frame_idx ?s1 + int (gap - 1) - ?f < 15"
  have s2: "?s2 = ?s1\<lparr>frame_idx := frame_idx ?s1 + int (gap - 1),
                      recently_counted := (if ?keep then [(c1, ?f)] else [])\<rparr>"
    using r1 by (rule run_empty_frames)
  have fi: "frame_idx ?s2 = frame_idx s + int gap" using False by (subst s2) (simp add: s1)
  have rc: "recently_counted ?s2 = (if ?keep then [(c1, ?f)] else [])" by (subst s2) simp
  have cn: "counter ?s2 = counter s + 1" by (subst s2) (simp add: s1)
  have nk: "\<not> ?keep \<longrightarrow> 15 \<le> frame_idx ?s2 + 1 - ?f"
    unfolding fi by (auto simp: s1)
  have "run_frames (two_crossings c1 gap c2) s = frame_step [c2] ?s2"
    using False by (simp add: two_crossings_def run_frames_append)
  then have "counter (run_frames (two_crossings c1 gap c2) s) =
      counter ?s2 + (if \<bar>fst c2 - fst c1\<bar> < 30 \<and> \<bar>snd c2 - snd c1\<bar> < 30
                           \<and> frame_idx ?s2 + 1 - ?f < 15 then 0 else 1)"
    using frame_step_second[OF c2 rc nk] by simp
  then show ?thesis using fi cn by simp
qed

text \<open>
  \<^bold>\<open>C4.\<close> For every state of a lane's counter and every centre \<^verbatim>\<open>(cx, cy)\<close>: the
  centre is looked at only if \<^verbatim>\<open>|cy - 550| < 6\<close>, and then it increments the
  counter by exactly 1 and appends its crossing record iff no retained record is
  within 30 px in x, within 30 px in y and less than 15 frames old; in every other
  case the state is unchanged. Consequently, of two centres on the line, seen
  \<^verbatim>\<open>gap\<close> frames apart from an empty history, the second is a duplicate (one
  crossing counted) when it is within 30 px of the first in x and in y and
  \<^verbatim>\<open>gap < 15\<close>, and both are counted (two crossings) otherwise.
\<close>

theorem crossing_contract:
  "count_center (cx, cy) s =
     (if \<bar>cy - 550\<bar> < 6
         \<and> \<not> (\<exists>r \<in> set (recently_counted s).
               \<bar>cx - fst (fst r)\<bar> < 30 \<and> \<bar>cy - snd (fst r)\<bar> < 30 \<and> frame_idx s - snd r < 15)
      then s\<lparr>counter := counter s + 1,
             recently_counted := recently_counted s @ [((cx, cy), frame_idx s)]\<rparr>
      else s)
   \<and> (\<bar>snd c1 - 550\<bar> < 6 \<and> \<bar>snd c2 - 550\<bar> < 6 \<and> recently_counted s0 = [] \<longrightarrow>
        counter (run_frames (two_crossings c1 gap c2) s0) =
          counter s0 + (if \<bar>fst c2 - fst c1\<bar> < 30 \<and> \<bar>snd c2 - snd c1\<bar> < 30 \<and> int gap < 15
                        then 1 else 2))"
  using count_center_cases two_crossings_count by blast


theorem crossing_contract_witness:
  "counter (run_frames (two_crossings (100, 550) 3 (110, 552)) counter_init) = 1
   \<and> counter (run_frames (two_crossings (100, 550) 3 (130, 552)) counter_init) = 2
   \<and> counter (run_frames (two_crossings (100, 550) 15 (110, 552)) counter_init) = 2"
proof -
  have e: "recently_counted counter_init = []" "counter counter_init = 0"
    by (simp_all add: counter_init_def)
  from crossing_contract[where ?c1.0 = "(100, 550)" and ?c2.0 = "(110, 552)" and gap = 3
      and ?s0.0 = counter_init] e
  have 1: "counter (run_frames (two_crossings (100, 550) 3 (110, 552)) counter_init) = 1"
    by simp
  from crossing_contract[where ?c1.0 = "(100, 550)" and ?c2.0 = "(130, 552)" and gap = 3
      and ?s0.0 = counter_init] e
  have 2: "counter (run_frames (two_crossings (100, 550) 3 (130, 552)) counter_init) = 2"
    by simp
  from crossing_contract[where ?c1.0 = "(100, 550)" and ?c2.0 = "(110, 552)" and gap = 15
      and ?s0.0 = counter_init] e
  have 3: "counter (run_frames (two_crossings (100, 550) 15 (110, 552)) counter_init) = 2"
    by simp
  show ?thesis using 1 2 3 by simp
qed

section \<open>The count never decreases: lemmas\<close>

lemma count_center_counter:
  "counter (count_center c s) - counter s =
     int (length (recently_counted (count_center c s))) - int (length (recently_counted s))
   \<and> counter s \<le> counter (count_center c s)
   \<and> counter (count_center c s) \<le> counter s + 1
   \<and> length (recently_counted s) \<le> length (recently_counted (count_center c s))"
  by (cases c) (simp add: count_center_def)

lemma count_centers_counter:
  "counter (count_centers cs s) - counter s =
     int (length (recently_counted (count_centers cs s))) - int (length (recently_counted s))
   \<and> counter s \<le> counter (count_centers cs s)"
proof (induction cs arbitrary: s)
  case Nil
  then show ?case by simp
next
  case (Cons c cs)
  from Cons.IH[of "count_center c s"] count_center_counter[of c s]
  show ?case by simp
qed

lemma frame_step_counter:
  "counter (frame_step cs s) = counter (count_centers cs (s\<lparr>frame_idx := frame_idx s + 1\<rparr>))"
  "counter s \<le> counter (frame_step cs s)"
  using count_centers_counter[of cs "s\<lparr>frame_idx := frame_idx s + 1\<rparr>"]
  by (simp_all add: frame_step_def prune_def)

lemma run_frames_counter: "counter s \<le> counter (run_frames fs s)"
proof (induction fs arbitrary: s)
  case Nil
  then show ?case by simp
next
  case (Cons f fs)
  from Cons.IH[of "frame_step f s"] frame_step_counter(2)[of s f]
  show ?case by simp
qed

lemma frame_loop_counts:
  "frame_loop name its s = (items, s') \<Longrightarrow>
     sorted (map item_count items)
   \<and> (\<forall>it \<in> set items. counter s \<le> item_count it \<and> item_count it \<le> counter s')
   \<and> counter s \<le> counter s'"
proof (induction its arbitrary: s items s')
  case Nil
  then show ?case by simp
next
  case (Cons a its)
  obtain stop rd where a: "a = (stop, rd)" by (cases a)
  show ?case
  proof (cases "stop \<or> rd = None")
    case True
    with Cons.prems a have "items = [] \<and> s' = s" by (cases stop; cases rd) auto
    then show ?thesis by simp
  next
    case False
    then obtain img rects where rd: "rd = Some (img, rects)" by auto
    let ?s1 = "process_frame rects s"
    obtain items1 s1' where l: "frame_loop name its ?s1 = (items1, s1')"
      by (cases "frame_loop name its ?s1")
    with Cons.prems a rd False have
      i: "items = (name, Some img, counter ?s1) # items1" and s': "s' = s1'"
      by (simp_all add: Let_def)
    from Cons.IH[OF l] have ih: "sorted (map item_count items1)"
      "\<forall>it \<in> set items1. counter ?s1 \<le> item_count it \<and> item_count it \<le> counter s1'"
      "counter ?s1 \<le> counter s1'" by simp_all
    have m: "counter s \<le> counter ?s1" by (simp add: process_frame_def frame_step_counter(2))
    have h: "item_count (name, Some img, counter ?s1) = counter ?s1"
      by (simp add: item_count_def)
    from ih m h show ?thesis unfolding i s'
      by auto
  qed
qed

section \<open>The bounds are strict\<close>

text \<open>
  \<^bold>\<open>C10.\<close> A centre with \<^verbatim>\<open>|cy - 550|\<close> exactly 6 is not a candidate (the state is
  unchanged). A candidate for which every retained record is exactly 30 px away in
  x, or exactly 30 px away in y, or exactly 15 frames old, is counted as a new
  crossing. Pruning keeps only records less than 15 frames old and drops every
  record that is exactly 15 frames old, so after each frame every retained record
  is less than 15 frames old.
\<close>

theorem bounds_strict:
  "(\<bar>cy - 550\<bar> = 6 \<longrightarrow> count_center (cx, cy) s = s)
   \<and> (\<bar>cy - 550\<bar> < 6
        \<and> (\<forall>r \<in> set (recently_counted s).
              \<bar>cx - fst (fst r)\<bar> = 30 \<or> \<bar>cy - snd (fst r)\<bar> = 30 \<or> frame_idx s - snd r = 15)
      \<longrightarrow> count_center (cx, cy) s =
            s\<lparr>counter := counter s + 1,
              recently_counted := recently_counted s @ [((cx, cy), frame_idx s)]\<rparr>)
   \<and> (\<forall>r \<in> set (recently_counted (prune s)). frame_idx s - snd r < 15)
   \<and> (\<forall>r \<in> set (recently_counted s).
         frame_idx s - snd r = 15 \<longrightarrow> r \<notin> set (recently_counted (prune s)))
   \<and> (\<forall>r \<in> set (recently_counted (frame_step cs s)).
         frame_idx (frame_step cs s) - snd r < 15)"
proof -
  have a: "\<bar>cy - 550\<bar> = 6 \<longrightarrow> count_center (cx, cy) s = s"
    by (simp add: count_center_cases)
  have b: "count_center (cx, cy) s =
            s\<lparr>counter := counter s + 1,
              recently_counted := recently_counted s @ [((cx, cy), frame_idx s)]\<rparr>"
    if "\<bar>cy - 550\<bar> < 6"
      "\<forall>r \<in> set (recently_counted s).
              \<bar>cx - fst (fst r)\<bar> = 30 \<or> \<bar>cy - snd (fst r)\<bar> = 30 \<or> frame_idx s - snd r = 15"
  proof -
    from that(2) have "\<not> (\<exists>r \<in> set (recently_counted s).
        \<bar>cx - fst (fst r)\<bar> < 30 \<and> \<bar>cy - snd (fst r)\<bar> < 30 \<and> frame_idx s - snd r < 15)"
      by fastforce
    with that(1) show ?thesis by (simp add: count_center_cases)
  qed
  have c: "\<forall>r \<in> set (recently_counted (prune s)). frame_idx s - snd r < 15"
    by (simp add: prune_fields)
  have d: "\<forall>r \<in> set (recently_counted s).
         frame_idx s - snd r = 15 \<longrightarrow> r \<notin> set (recently_counted (prune s))"
    by (simp add: prune_fields)
  have e: "\<forall>r \<in> set (recently_counted (frame_step cs s)).
         frame_idx (frame_step cs s) - snd r < 15"
    by (simp add: frame_step_def prune_fields)
  show ?thesis using a b c d e by blast
qed

theorem bounds_strict_witness:
  "count_center (100, 556) counter_init = counter_init
   \<and> count_center (130, 550)
       \<lparr>recently_counted = [((100, 550), 3), ((125, 551), 1)], counter = 2, frame_idx = 16\<rparr>
     = \<lparr>recently_counted = [((100, 550), 3), ((125, 551), 1), ((130, 550), 16)],
        counter = 3, frame_idx = 16\<rparr>
   \<and> recently_counted
        (prune \<lparr>recently_counted = [((100, 550), 3), ((125, 551), 1)], counter = 2,
                frame_idx = 16\<rparr>) = [((100, 550), 3)]"
proof -
  let ?s = "\<lparr>recently_counted = [((100, 550), 3), ((125, 551), 1)], counter = 2, frame_idx = 16\<rparr>"
  have h: "\<bar>(550::int) - 550\<bar> < 6
        \<and> (\<forall>r \<in> set (recently_counted ?s).
              \<bar>130 - fst (fst r)\<bar> = 30 \<or> \<bar>550 - snd (fst r)\<bar> = 30 \<or> frame_idx ?s - snd r = 15)"
    by simp
  from bounds_strict[of 556 100 counter_init "[]"]
  have 1: "count_center (100, 556) counter_init = counter_init" by simp
  from bounds_strict[of 550 130 ?s "[]"] h
  have 2: "count_center (130, 550) ?s =
      ?s\<lparr>counter := counter ?s + 1,
         recently_counted := recently_counted ?s @ [((130, 550), frame_idx ?s)]\<rparr>"
    by blast
  have 3: "recently_counted (prune ?s) = [((100, 550), 3)]" by (simp add: prune_fields)
  show ?thesis using 1 2 3 by simp
qed


section \<open>The size filter\<close>

lemma accepted_iff: "accepted (x, y, w, h) \<longleftrightarrow> 80 \<le> w \<and> 80 \<le> h"
  by (simp add: accepted_def min_width_rect_def min_height_rect_def)

lemma extract_centers_filter:
  "extract_centers rects =
     map (\<lambda>(x, y, w, h). (x + w div 2, y + h div 2)) (filter accepted rects)"
proof (induction rects)
  case Nil
  then show ?case by simp
next
  case (Cons r rects)
  obtain x y w h where r: "r = (x, y, w, h)" by (cases r)
  show ?case
  proof (cases "80 \<le> w \<and> 80 \<le> h")
    case True
    then have "center_handle x y w h = (x + w div 2, y + h div 2)"
      by (simp add: center_handle_def int_half_def)
    with True Cons.IH r show ?thesis
      by (simp add: accepted_iff min_width_rect_def min_height_rect_def)
  next
    case False
    with Cons.IH r show ?thesis
      by (auto simp: accepted_iff min_width_rect_def min_height_rect_def)
  qed
qed

text \<open>
  \<^bold>\<open>C6\<close>, as stated, fails at the boundary: a region 80 wide and 80 high does not
  exceed the minimums, yet it is accepted, its centre is extracted, and, lying on
  the counting line, it is counted.
\<close>

theorem blob_filter_counterexample:
  "accepted (10, 510, 80, 80) \<and> \<not> (80 < (80::int))
   \<and> extract_centers [(10, 510, 80, 80)] = [(50, 550)]
   \<and> counter (process_frame [(10, 510, 80, 80)] counter_init) = 1
   \<and> counter (process_frame [] counter_init) = 0"
  by (simp add: accepted_iff extract_centers_filter process_frame_def frame_step_def
        count_center_cases prune_fields counter_init_def)

text \<open>
  \<^bold>\<open>C6\<close>, amended. A region with bounding box \<^verbatim>\<open>(x, y, w, h)\<close> is accepted iff its
  width and its height are each at least the minimum (\<^verbatim>\<open>w >= 80\<close> and
  \<^verbatim>\<open>h >= 80\<close>); the centres of a frame are those of its accepted regions, each
  \<^verbatim>\<open>(x + w div 2, y + h div 2)\<close> with the halves rounded down; a rejected region
  contributes nothing: the frame is processed as if the region were not there.
\<close>

theorem blob_filter:
  "(accepted (x, y, w, h) \<longleftrightarrow> 80 \<le> w \<and> 80 \<le> h)
   \<and> extract_centers rects =
       map (\<lambda>(x, y, w, h). (x + w div 2, y + h div 2)) (filter accepted rects)
   \<and> (\<not> accepted r \<longrightarrow>
        extract_centers (rs @ r # rs') = extract_centers (rs @ rs')
        \<and> process_frame (rs @ r # rs') s = process_frame (rs @ rs') s)"
  by (simp add: accepted_iff extract_centers_filter process_frame_def)

theorem blob_filter_witness:
  "\<not> accepted (10, 510, 79, 200)
   \<and> extract_centers ([(0, 0, 90, 90)] @ (10, 510, 79, 200) # [(10, 500, 101, 101)])
       = [(45, 45), (60, 550)]
   \<and> process_frame ([(0, 0, 90, 90)] @ (10, 510, 79, 200) # [(10, 500, 101, 101)]) counter_init
       = process_frame ([(0, 0, 90, 90)] @ [(10, 500, 101, 101)]) counter_init"
proof -
  have n: "\<not> accepted (10, 510, 79, 200)" by (simp add: accepted_iff)
  have e: "extract_centers ([(0, 0, 90, 90)] @ [(10, 500, 101, 101)]) = [(45, 45), (60, 550)]"
    by (simp add: extract_centers_filter accepted_iff)
  from blob_filter[of 10 510 79 200 "[]" "(10, 510, 79, 200)" "[(0, 0, 90, 90)]"
      "[(10, 500, 101, 101)]" counter_init] n e
  show ?thesis by simp
qed

section \<open>The worker and its sentinel\<close>

lemma frame_loop_items:
  "frame_loop name its s = (items, s') \<Longrightarrow>
     s' = fold process_frame (frames_read its) s
   \<and> length items = length (frames_read its)
   \<and> filter is_sentinel items = []
   \<and> (items \<noteq> [] \<longrightarrow> item_count (last items) = counter s')"
proof (induction its arbitrary: s items s')
  case Nil
  then show ?case by simp
next
  case (Cons a its)
  obtain stop rd where a: "a = (stop, rd)" by (cases a)
  show ?case
  proof (cases "stop \<or> rd = None")
    case True
    with Cons.prems a have "items = [] \<and> s' = s" by (cases stop; cases rd) auto
    with True a show ?thesis by (cases stop; cases rd) auto
  next
    case False
    then obtain img rects where rd: "rd = Some (img, rects)" by auto
    let ?s1 = "process_frame rects s"
    obtain items1 s1' where l: "frame_loop name its ?s1 = (items1, s1')"
      by (cases "frame_loop name its ?s1")
    with Cons.prems a rd False have
      i: "items = (name, Some img, counter ?s1) # items1" and s': "s' = s1'"
      by (simp_all add: Let_def)
    from Cons.IH[OF l] have ih: "s1' = fold process_frame (frames_read its) ?s1"
      "length items1 = length (frames_read its)" "filter is_sentinel items1 = []"
      "items1 \<noteq> [] \<longrightarrow> item_count (last items1) = counter s1'" by simp_all
    have e: "items1 = [] \<Longrightarrow> counter s1' = counter ?s1"
      using ih(1,2) by simp
    have h: "item_count (name, Some img, counter ?s1) = counter ?s1"
      "\<not> is_sentinel (name, Some img, counter ?s1)"
      by (simp_all add: item_count_def is_sentinel_def)
    from ih e h a rd False show ?thesis unfolding i s'
      by auto
  qed
qed

text \<open>
  \<^bold>\<open>C8.\<close> Every run of a worker publishes exactly one sentinel (an item whose frame
  is \<^verbatim>\<open>None\<close>), as its last item, under the lane's name. If the video file is
  missing or does not open, that sentinel is the only item, it carries count 0 and
  no frame is processed. Otherwise the source is released, one item is published
  per frame read before the stream ended or the stop event was seen, and the
  sentinel carries the final count: the counter after processing exactly those
  frames, which is also the count of the last frame item published, if any.
\<close>

theorem worker_sentinel:
  "published (vehicle_counter video name) \<noteq> []
   \<and> filter is_sentinel (published (vehicle_counter video name))
       = [last (published (vehicle_counter video name))]
   \<and> fst (last (published (vehicle_counter video name))) = name
   \<and> (\<not> (path_exists video \<and> isOpened video) \<longrightarrow>
        published (vehicle_counter video name) = [(name, None, 0)]
        \<and> final_state (vehicle_counter video name) = counter_init)
   \<and> (path_exists video \<and> isOpened video \<longrightarrow>
        released (vehicle_counter video name)
        \<and> final_state (vehicle_counter video name)
            = fold process_frame (frames_read (iterations video)) counter_init
        \<and> length (published (vehicle_counter video name))
            = length (frames_read (iterations video)) + 1
        \<and> last (published (vehicle_counter video name))
            = (name, None, counter (final_state (vehicle_counter video name)))
        \<and> (frames_read (iterations video) \<noteq> [] \<longrightarrow>
             item_count (last (butlast (published (vehicle_counter video name))))
               = counter (final_state (vehicle_counter video name))))"
proof (cases "path_exists video \<and> isOpened video")
  case False
  then show ?thesis by (auto simp: vehicle_counter_def is_sentinel_def)
next
  case True
  obtain items s' where l: "frame_loop name (iterations video) counter_init = (items, s')"
    by (cases "frame_loop name (iterations video) counter_init")
  have v: "vehicle_counter video name =
      \<lparr>published = items @ [(name, None, counter s')], released = True, final_state = s'\<rparr>"
    using True l by (simp add: vehicle_counter_def)
  have s: "is_sentinel (name, None, counter s')" by (simp add: is_sentinel_def)
  from frame_loop_items[OF l] have f: "s' = fold process_frame (frames_read (iterations video)) counter_init"
    "length items = length (frames_read (iterations video))"
    "filter is_sentinel items = []"
    "items \<noteq> [] \<longrightarrow> item_count (last items) = counter s'" by simp_all
  from f(2) have e: "frames_read (iterations video) \<noteq> [] \<longrightarrow> items \<noteq> []" by auto
  from f e True s show ?thesis unfolding v by simp
qed


theorem worker_sentinel_witness:
  "published (vehicle_counter missing_video ''Lane 1'') = [(''Lane 1'', None, 0)]
   \<and> released (vehicle_counter sample_video ''Lane 1'')
   \<and> length (published (vehicle_counter sample_video ''Lane 1'')) = 3
   \<and> last (published (vehicle_counter sample_video ''Lane 1'')) = (''Lane 1'', None, 1)"
proof -
  have m: "\<not> (path_exists missing_video \<and> isOpened missing_video)"
    by (simp add: missing_video_def)
  have o: "path_exists sample_video \<and> isOpened sample_video"
    by (simp add: sample_video_def)
  have f: "frames_read (iterations sample_video) = [[(10, 510, 80, 80)], []]"
    by (simp add: sample_video_def)
  have c: "counter (fold process_frame [[(10, 510, 80, 80)], []] counter_init) = 1"
    by (simp add: extract_centers_filter accepted_iff process_frame_def frame_step_def
          count_center_cases prune_fields counter_init_def)
  from worker_sentinel[of missing_video "''Lane 1''"] m
  have 1: "published (vehicle_counter missing_video ''Lane 1'') = [(''Lane 1'', None, 0)]"
    by blast
  from worker_sentinel[of sample_video "''Lane 1''"] o
  have 2: "released (vehicle_counter sample_video ''Lane 1'')"
    "final_state (vehicle_counter sample_video ''Lane 1'')
       = fold process_frame (frames_read (iterations sample_video)) counter_init"
    "length (published (vehicle_counter sample_video ''Lane 1''))
       = length (frames_read (iterations sample_video)) + 1"
    "last (published (vehicle_counter sample_video ''Lane 1''))
       = (''Lane 1'', None, counter (final_state (vehicle_counter sample_video ''Lane 1'')))"
    by blast+
  from 1 2 f c show ?thesis by simp
qed

section \<open>The count grows by one per accepted crossing\<close>

lemma count_center_exact:
  "count_center c s =
     (if accepted_crossing c (frame_idx s) (recently_counted s)
      then s\<lparr>counter := counter s + 1,
             recently_counted := recently_counted s @ [(c, frame_idx s)]\<rparr>
      else s)"
  by (cases c) (simp add: count_center_cases accepted_crossing_def)

lemma count_centers_exact:
  "counter (count_centers cs s) =
     counter s + crossings_in_frame cs (frame_idx s) (recently_counted s)"
proof (induction cs arbitrary: s)
  case Nil
  then show ?case by simp
next
  case (Cons c cs)
  show ?case
  proof (cases "accepted_crossing c (frame_idx s) (recently_counted s)")
    case True
    then have "count_center c s =
        s\<lparr>counter := counter s + 1,
          recently_counted := recently_counted s @ [(c, frame_idx s)]\<rparr>"
      by (simp add: count_center_exact)
    with True Cons.IH[of "count_center c s"] show ?thesis by simp
  next
    case False
    then have "count_center c s = s" by (simp add: count_center_exact)
    with False Cons.IH[of s] show ?thesis by simp
  qed
qed

lemma crossings_in_frame_nonneg: "0 \<le> crossings_in_frame cs fidx history"
  by (induction cs arbitrary: history) simp_all

lemma frame_step_exact:
  "counter (frame_step cs s) =
     counter s + crossings_in_frame cs (frame_idx s + 1) (recently_counted s)"
  using count_centers_exact[of cs "s\<lparr>frame_idx := frame_idx s + 1\<rparr>"]
  by (simp add: frame_step_def prune_fields)

lemma frame_loop_published:
  "frame_loop name its s = (items, s') \<Longrightarrow>
     map item_count items = counts_after (frames_read its) s"
proof (induction its arbitrary: s items s')
  case Nil
  then show ?case by simp
next
  case (Cons a its)
  obtain stop rd where a: "a = (stop, rd)" by (cases a)
  show ?case
  proof (cases "stop \<or> rd = None")
    case True
    with Cons.prems a have "items = [] \<and> s' = s" by (cases stop; cases rd) auto
    with True a show ?thesis by (cases stop; cases rd) auto
  next
    case False
    then obtain img rects where rd: "rd = Some (img, rects)" by auto
    let ?s1 = "process_frame rects s"
    obtain items1 s1' where l: "frame_loop name its ?s1 = (items1, s1')"
      by (cases "frame_loop name its ?s1")
    with Cons.prems a rd False have
      i: "items = (name, Some img, counter ?s1) # items1"
      by (simp_all add: Let_def)
    have h: "item_count (name, Some img, counter ?s1) = counter ?s1"
      by (simp add: item_count_def)
    from Cons.IH[OF l] h a rd False show ?thesis unfolding i by simp
  qed
qed

text \<open>
  \<^bold>\<open>C5.\<close> The cumulative count of a lane grows by exactly 1 for each accepted
  crossing and by 0 otherwise, so it never decreases: handling one centre adds 1
  if the centre is an accepted crossing (on the line and matching no retained
  record) and 0 if it is not; a frame adds the number of accepted crossings among
  its centres; the count does not decrease over a centre, a frame or any sequence
  of frames; and the counts a worker publishes are the counts reached after each
  frame read, followed by the final count, in non-decreasing order.
\<close>

theorem count_monotone:
  "counter (count_center c s) =
     counter s + (if accepted_crossing c (frame_idx s) (recently_counted s) then 1 else 0)
   \<and> counter (frame_step cs s) =
       counter s + crossings_in_frame cs (frame_idx s + 1) (recently_counted s)
   \<and> counter (process_frame rects s) =
       counter s
       + crossings_in_frame (extract_centers rects) (frame_idx s + 1) (recently_counted s)
   \<and> 0 \<le> crossings_in_frame cs fidx history
   \<and> counter s \<le> counter (count_center c s)
   \<and> counter s \<le> counter (frame_step cs s)
   \<and> counter s \<le> counter (process_frame rects s)
   \<and> counter s \<le> counter (run_frames fs s)
   \<and> map item_count (published (vehicle_counter video window_name)) =
       (if path_exists video \<and> isOpened video
        then counts_after (frames_read (iterations video)) counter_init
             @ [counter (fold process_frame (frames_read (iterations video)) counter_init)]
        else [0])
   \<and> sorted (map item_count (published (vehicle_counter video window_name)))"
proof -
  have 1: "counter (count_center c s) =
     counter s + (if accepted_crossing c (frame_idx s) (recently_counted s) then 1 else 0)"
    by (simp add: count_center_exact)
  have 3: "counter (process_frame rects s) =
       counter s
       + crossings_in_frame (extract_centers rects) (frame_idx s + 1) (recently_counted s)"
    by (simp add: process_frame_def frame_step_exact)
  have 9: "map item_count (published (vehicle_counter video window_name)) =
       (if path_exists video \<and> isOpened video
        then counts_after (frames_read (iterations video)) counter_init
             @ [counter (fold process_frame (frames_read (iterations video)) counter_init)]
        else [0])"
  proof (cases "path_exists video \<and> isOpened video")
    case False
    then show ?thesis by (auto simp: vehicle_counter_def item_count_def)
  next
    case True
    obtain items s' where l: "frame_loop window_name (iterations video) counter_init = (items, s')"
      by (cases "frame_loop window_name (iterations video) counter_init")
    have h: "item_count (window_name, None, counter s') = counter s'"
      by (simp add: item_count_def)
    from frame_loop_items[OF l] have f: "s' = fold process_frame (frames_read (iterations video)) counter_init"
      by simp
    from frame_loop_published[OF l] True l h f show ?thesis
      by (simp add: vehicle_counter_def)
  qed
  have 10: "sorted (map item_count (published (vehicle_counter video window_name)))"
  proof (cases "path_exists video \<and> isOpened video")
    case False
    then show ?thesis by (auto simp: vehicle_counter_def item_count_def)
  next
    case True
    obtain items s' where l: "frame_loop window_name (iterations video) counter_init = (items, s')"
      by (cases "frame_loop window_name (iterations video) counter_init")
    have h: "item_count (window_name, None, counter s') = counter s'"
      by (simp add: item_count_def)
    from frame_loop_counts[OF l] have "sorted (map item_count items)"
      "\<forall>it \<in> set items. item_count it \<le> counter s'" by simp_all
    then have "sorted (map item_count (items @ [(window_name, None, counter s')]))"
      by (simp add: sorted_append h)
    with True l show ?thesis by (simp add: vehicle_counter_def)
  qed
  show ?thesis
    using 1 frame_step_exact[of cs s] 3 crossings_in_frame_nonneg[of cs fidx history]
      count_center_counter[of c s] frame_step_counter(2)[of s cs]
      frame_step_counter(2)[of s "extract_centers rects"] run_frames_counter[of s fs] 9 10
    by (simp add: process_frame_def)
qed

text \<open>
  A centre on the line is counted from an empty history, a centre 6 px off the
  line is not; of three centres on the line in one frame, the second within 30 px
  of the first, two are counted; the sample worker publishes the counts 1, 1, 1.
\<close>

theorem count_monotone_witness:
  "counter (count_center (100, 550) counter_init) = 1
   \<and> counter (count_center (100, 556) counter_init) = 0
   \<and> counter (frame_step [(100, 550), (110, 552), (200, 550)] counter_init) = 2
   \<and> map item_count (published (vehicle_counter sample_video ''Lane 1'')) = [1, 1, 1]"
proof -
  have i: "counter counter_init = 0" "frame_idx counter_init = 0"
    "recently_counted counter_init = []" by (simp_all add: counter_init_def)
  have a1: "accepted_crossing (100, 550) 0 []" by (simp add: accepted_crossing_def)
  have a2: "\<not> accepted_crossing (100, 556) 0 []" by (simp add: accepted_crossing_def)
  have a3: "crossings_in_frame [(100, 550), (110, 552), (200, 550)] (0 + 1) [] = 2"
    by (simp add: accepted_crossing_def)
  have v: "path_exists sample_video \<and> isOpened sample_video"
    "frames_read (iterations sample_video) = [[(10, 510, 80, 80)], []]"
    by (simp_all add: sample_video_def)
  have p: "process_frame [(10, 510, 80, 80)] counter_init =
      \<lparr>recently_counted = [((50, 550), 1)], counter = 1, frame_idx = 1\<rparr>"
    by (simp add: extract_centers_filter accepted_iff process_frame_def frame_step_def
          count_center_cases prune_fields counter_init_def prune_def cooldown_frames_def)
  have p2: "process_frame [] \<lparr>recently_counted = [((50, 550), 1)], counter = 1, frame_idx = 1\<rparr>
      = \<lparr>recently_counted = [((50, 550), 1)], counter = 1, frame_idx = 2\<rparr>"
    by (simp add: process_frame_def frame_step_def prune_def cooldown_frames_def)
  have "counter (count_center (100, 550) counter_init) =
      counter counter_init
      + (if accepted_crossing (100, 550) (frame_idx counter_init) (recently_counted counter_init)
         then 1 else 0)"
    using count_monotone[of "(100, 550)" counter_init] by blast
  with a1 i have 1: "counter (count_center (100, 550) counter_init) = 1" by simp
  have "counter (count_center (100, 556) counter_init) =
      counter counter_init
      + (if accepted_crossing (100, 556) (frame_idx counter_init) (recently_counted counter_init)
         then 1 else 0)"
    using count_monotone[of "(100, 556)" counter_init] by blast
  with a2 i have 2: "counter (count_center (100, 556) counter_init) = 0" by simp
  have "counter (frame_step [(100, 550), (110, 552), (200, 550)] counter_init) =
      counter counter_init
      + crossings_in_frame [(100, 550), (110, 552), (200, 550)] (frame_idx counter_init + 1)
          (recently_counted counter_init)"
    using count_monotone[of _ counter_init "[(100, 550), (110, 552), (200, 550)]"] by blast
  with a3 i have 3: "counter (frame_step [(100, 550), (110, 552), (200, 550)] counter_init) = 2"
    by simp
  have "map item_count (published (vehicle_counter sample_video ''Lane 1'')) =
       (if path_exists sample_video \<and> isOpened sample_video
        then counts_after (frames_read (iterations sample_video)) counter_init
             @ [counter (fold process_frame (frames_read (iterations sample_video)) counter_init)]
        else [0])"
    using count_monotone[where video = sample_video and window_name = "''Lane 1''"] by blast
  with v have 4: "map item_count (published (vehicle_counter sample_video ''Lane 1'')) = [1, 1, 1]"
    by (simp add: p p2)
  show ?thesis using 1 2 3 4 by simp
qed

section \<open>The consumer at cancellation\<close>

lemma zero_counts_map_of:
  "map_of (zero_counts lanes d) lane = (if lane \<in> set lanes then Some 0 else map_of d lane)"
  by (induction lanes arbitrary: d) (auto simp: update_conv')

lemma zero_counts_distinct:
  "distinct (map fst d) \<Longrightarrow> distinct (map fst (zero_counts lanes d))"
  by (induction lanes arbitrary: d) (auto simp: distinct_update)

text \<open>The four ways an iteration that takes an item can go.\<close>

lemma display_iteration_empty:
  "queue s @ arrivals = [] \<Longrightarrow> \<not> stop_event s \<Longrightarrow>
     display_iteration d (arrivals, k) s = ([], False, s)"
  by (simp add: display_iteration_def)

lemma display_iteration_sentinel:
  "queue s @ arrivals = (n, None, c) # q \<Longrightarrow>
     display_iteration d (arrivals, k) s =
       ([(n, None, c)], False,
        (if n \<in> windows s
         then s\<lparr>queue := q, windows := windows s - {n},
                final_counts := AList.update n c (final_counts s)\<rparr>
         else s\<lparr>queue := q\<rparr>))"
  by (simp add: display_iteration_def)

lemma display_iteration_frame:
  "queue s @ arrivals = (n, Some img, c) # q \<Longrightarrow>
     display_iteration d (arrivals, k) s =
       ([(n, Some img, c)], z_pressed k,
        (if z_pressed k
         then close_and_write d
                (s\<lparr>final_counts := AList.update n c (final_counts s), stop_event := True,
                   queue := []\<rparr>)
         else s\<lparr>queue := q, final_counts := AList.update n c (final_counts s)\<rparr>))"
  by (simp add: display_iteration_def z_pressed_def Let_def)

text \<open>
  What closing and writing leaves of a state: the report is the table of
  \<^verbatim>\<open>final_counts\<close> if the disk takes it, and an exception leaves the function if
  the directory cannot be made.
\<close>

lemma close_and_write_fields:
  "windows (close_and_write d s) = {}"
  "final_counts (close_and_write d s) = final_counts s"
  "stop_event (close_and_write d s) = stop_event s"
  "queue (close_and_write d s) = queue s"
  "report (close_and_write d s) =
     (case d of DiskOk \<Rightarrow> Some (final_counts s) | WriteFails \<Rightarrow> None
      | MakedirsFails \<Rightarrow> report s)"
  "raised (close_and_write d s) =
     (case d of MakedirsFails \<Rightarrow> Some UnboundLocalError | _ \<Rightarrow> raised s)"
  by (cases d; simp add: close_and_write_def write_counts_table_def)+

lemma expected_count_Cons:
  "expected_count lane (it # items) start =
     expected_count lane items (if fst it = lane then Some (item_count it) else start)"
  by (auto simp: expected_count_def split: list.splits)

lemma display_loop_cancel:
  assumes "display_loop d inputs s = (acted, s')"
    and "\<not> stop_event s" and "stop_event s'"
    and "distinct (map fst (filter is_sentinel acted))"
    and "\<forall>it \<in> set (filter is_sentinel acted). fst it \<in> lanes \<longrightarrow> fst it \<in> windows s"
    and "distinct (map fst (final_counts s))"
  shows "queue s' = []
       \<and> distinct (map fst (final_counts s'))
       \<and> (\<forall>lane \<in> lanes. map_of (final_counts s') lane
             = expected_count lane acted (map_of (final_counts s) lane))
       \<and> (\<exists>rest. queue s @ concat (map fst inputs) = acted @ rest)"
  using assms
proof (induction inputs arbitrary: s acted)
  case Nil
  then show ?case by simp
next
  case (Cons inp inputs)
  obtain arrivals k where inp: "inp = (arrivals, k)" by (cases inp)
  from Cons.prems(1,2,3) have w: "windows s \<noteq> {}" by auto
  show ?case
  proof (cases "queue s @ arrivals")
    case Nil
    from display_iteration_empty[OF Nil Cons.prems(2), of d k] inp w Cons.prems(1)
    have l: "display_loop d inputs s = (acted, s')" by (simp split: prod.splits)
    from Cons.IH[OF l Cons.prems(2-6)] Nil inp show ?thesis by simp
  next
    case (Cons it q)
    obtain n fr c where it: "it = (n, fr, c)" by (cases it)
    show ?thesis
    proof (cases fr)
      case None
      let ?s1 = "if n \<in> windows s
         then s\<lparr>queue := q, windows := windows s - {n},
                final_counts := AList.update n c (final_counts s)\<rparr>
         else s\<lparr>queue := q\<rparr>"
      from Cons it None have qa: "queue s @ arrivals = (n, None, c) # q" by simp
      obtain acted1 s1' where l: "display_loop d inputs ?s1 = (acted1, s1')"
        by (cases "display_loop d inputs ?s1")
      from display_iteration_sentinel[OF qa, of d k] inp w Cons.prems(1) l
      have a: "acted = (n, None, c) # acted1" and s': "s' = s1'" by simp_all
      have sen: "is_sentinel (n, None, c)" by (simp add: is_sentinel_def)
      have p2: "\<not> stop_event ?s1" using Cons.prems(2) by simp
      have f: "filter is_sentinel acted = (n, None, c) # filter is_sentinel acted1"
        unfolding a by (simp add: sen)
      have p4: "distinct (map fst (filter is_sentinel acted1))"
        and nn: "n \<notin> fst ` set (filter is_sentinel acted1)"
        using Cons.prems(4) unfolding f by simp_all
      have inw: "n \<in> lanes \<Longrightarrow> n \<in> windows s"
        using Cons.prems(5) unfolding f by simp
      have p5: "\<forall>it \<in> set (filter is_sentinel acted1). fst it \<in> lanes \<longrightarrow> fst it \<in> windows ?s1"
      proof
        fix it assume i: "it \<in> set (filter is_sentinel acted1)"
        with nn have "fst it \<noteq> n" by force
        moreover from i have "it \<in> set (filter is_sentinel acted)" unfolding f by simp
        with Cons.prems(5) have "fst it \<in> lanes \<longrightarrow> fst it \<in> windows s" by blast
        ultimately show "fst it \<in> lanes \<longrightarrow> fst it \<in> windows ?s1" by simp
      qed
      have p6: "distinct (map fst (final_counts ?s1))"
        using Cons.prems(6) by (simp add: distinct_update)
      from Cons.IH[OF l[folded s'] p2 Cons.prems(3) p4 p5 p6]
      have ih: "queue s' = []"
        "distinct (map fst (final_counts s'))"
        "\<forall>lane \<in> lanes. map_of (final_counts s') lane
             = expected_count lane acted1 (map_of (final_counts ?s1) lane)"
        "\<exists>rest. queue ?s1 @ concat (map fst inputs) = acted1 @ rest"
        by simp_all
      have m: "map_of (final_counts ?s1) lane
          = (if fst (n, None :: 'a option, c) = lane then Some (item_count (n, None :: 'a option, c))
             else map_of (final_counts s) lane)" if "lane \<in> lanes" for lane
        using inw that by (auto simp: update_conv' item_count_def)
      have 4: "\<forall>lane \<in> lanes. map_of (final_counts s') lane
             = expected_count lane acted (map_of (final_counts s) lane)"
        using ih(3) m unfolding a by (simp add: expected_count_Cons)
      have qs1: "queue ?s1 = q" by simp
      from ih(4) obtain rest where r: "q @ concat (map fst inputs) = acted1 @ rest"
        unfolding qs1 by blast
      have "queue s @ concat (map fst (inp # inputs))
              = (queue s @ arrivals) @ concat (map fst inputs)" using inp by simp
      also have "\<dots> = (n, None, c) # acted1 @ rest" using qa r by simp
      finally have 5: "\<exists>rest. queue s @ concat (map fst (inp # inputs)) = acted @ rest"
        unfolding a by simp
      from ih(1,2) 4 5 show ?thesis by blast
    next
      case (Some img)
      from Cons it Some have qa: "queue s @ arrivals = (n, Some img, c) # q" by simp
      have nsen: "\<not> is_sentinel (n, Some img, c)" by (simp add: is_sentinel_def)
      show ?thesis
      proof (cases "z_pressed k")
        case True
        from display_iteration_frame[OF qa, of d k] inp w Cons.prems(1) True
        have a: "acted = [(n, Some img, c)]"
          and s': "s' = close_and_write d
                (s\<lparr>final_counts := AList.update n c (final_counts s), stop_event := True,
                   queue := []\<rparr>)" by simp_all
        have "queue s @ concat (map fst (inp # inputs))
                = (queue s @ arrivals) @ concat (map fst inputs)" using inp by simp
        also have "\<dots> = [(n, Some img, c)] @ (q @ concat (map fst inputs))" using qa by simp
        finally have 5: "\<exists>rest. queue s @ concat (map fst (inp # inputs)) = acted @ rest"
          unfolding a by blast
        from Cons.prems(6) 5 show ?thesis unfolding a s'
          by (simp add: close_and_write_fields distinct_update update_conv'
                expected_count_def item_count_def)
      next
        case False
        let ?s1 = "s\<lparr>queue := q, final_counts := AList.update n c (final_counts s)\<rparr>"
        obtain acted1 s1' where l: "display_loop d inputs ?s1 = (acted1, s1')"
          by (cases "display_loop d inputs ?s1")
        from display_iteration_frame[OF qa, of d k] inp w Cons.prems(1) l False
        have a: "acted = (n, Some img, c) # acted1" and s': "s' = s1'" by simp_all
        have p2: "\<not> stop_event ?s1" using Cons.prems(2) by simp
        have f: "filter is_sentinel acted = filter is_sentinel acted1"
          unfolding a by (simp add: nsen)
        have p4: "distinct (map fst (filter is_sentinel acted1))"
          using Cons.prems(4) unfolding f by simp
        have p5: "\<forall>it \<in> set (filter is_sentinel acted1). fst it \<in> lanes \<longrightarrow> fst it \<in> windows ?s1"
          using Cons.prems(5) unfolding f by simp
        have p6: "distinct (map fst (final_counts ?s1))"
          using Cons.prems(6) by (simp add: distinct_update)
        from Cons.IH[OF l[folded s'] p2 Cons.prems(3) p4 p5 p6]
        have ih: "queue s' = []"
          "distinct (map fst (final_counts s'))"
          "\<forall>lane \<in> lanes. map_of (final_counts s') lane
               = expected_count lane acted1 (map_of (final_counts ?s1) lane)"
          "\<exists>rest. queue ?s1 @ concat (map fst inputs) = acted1 @ rest"
          by simp_all
        have 4: "\<forall>lane \<in> lanes. map_of (final_counts s') lane
               = expected_count lane acted (map_of (final_counts s) lane)"
          using ih(3) unfolding a
          by (simp add: expected_count_Cons update_conv' item_count_def)
        from ih(4) obtain rest where r: "q @ concat (map fst inputs) = acted1 @ rest"
          by auto
        have "queue s @ concat (map fst (inp # inputs))
                = (queue s @ arrivals) @ concat (map fst inputs)" using inp by simp
        also have "\<dots> = (n, Some img, c) # acted1 @ rest" using qa r by simp
        finally have 5: "\<exists>rest. queue s @ concat (map fst (inp # inputs)) = acted @ rest"
          unfolding a by simp
        from ih(1,2) 4 5 show ?thesis by blast
      qed
    qed
  qed
qed





lemma display_iteration_keeps_stop:
  assumes "display_iteration d inp s = (a, left, s')" and "stop_event s"
  shows "stop_event s'"
proof -
  obtain arrivals k where inp: "inp = (arrivals, k)" by (cases inp)
  show ?thesis
  proof (cases "queue s @ arrivals")
    case Nil
    with assms inp show ?thesis
      by (auto simp: display_iteration_def close_and_write_fields)
  next
    case (Cons it q)
    obtain n fr c where it: "it = (n, fr, c)" by (cases it)
    show ?thesis
    proof (cases fr)
      case None
      with Cons it have qa: "queue s @ arrivals = (n, None, c) # q" by simp
      from display_iteration_sentinel[OF qa, of d k] assms inp show ?thesis by auto
    next
      case (Some img)
      with Cons it have qa: "queue s @ arrivals = (n, Some img, c) # q" by simp
      from display_iteration_frame[OF qa, of d k] assms inp show ?thesis
        by (cases "z_pressed k") (auto simp: close_and_write_fields)
    qed
  qed
qed

text \<open>While the stop event is clear, nothing is written and nothing is raised.\<close>

lemma display_iteration_quiet:
  assumes "display_iteration d inp s = (a, left, s')" and "\<not> stop_event s'"
  shows "report s' = report s \<and> raised s' = raised s \<and> \<not> left"
proof -
  obtain arrivals k where inp: "inp = (arrivals, k)" by (cases inp)
  show ?thesis
  proof (cases "queue s @ arrivals")
    case Nil
    with assms inp show ?thesis
      by (cases "stop_event s") (auto simp: display_iteration_def close_and_write_fields)
  next
    case (Cons it q)
    obtain n fr c where it: "it = (n, fr, c)" by (cases it)
    show ?thesis
    proof (cases fr)
      case None
      with Cons it have qa: "queue s @ arrivals = (n, None, c) # q" by simp
      from display_iteration_sentinel[OF qa, of d k] assms inp show ?thesis by auto
    next
      case (Some img)
      with Cons it have qa: "queue s @ arrivals = (n, Some img, c) # q" by simp
      from display_iteration_frame[OF qa, of d k] assms inp show ?thesis
        by (cases "z_pressed k") (auto simp: close_and_write_fields)
    qed
  qed
qed

lemma display_loop_quiet:
  "display_loop d inputs s = (acted, s') \<Longrightarrow> \<not> stop_event s' \<Longrightarrow>
     report s' = report s \<and> raised s' = raised s"
proof (induction inputs arbitrary: s acted)
  case Nil
  then show ?case by simp
next
  case (Cons inp inputs)
  show ?case
  proof (cases "windows s = {}")
    case True
    with Cons.prems show ?thesis by simp
  next
    case False
    obtain a left s1 where i: "display_iteration d inp s = (a, left, s1)"
      by (cases "display_iteration d inp s") auto
    show ?thesis
    proof (cases left)
      case True
      with False i Cons.prems have "s' = s1" by simp
      with display_iteration_quiet[OF i] Cons.prems(2) True show ?thesis by simp
    next
      case nl: False
      obtain acted1 where l: "display_loop d inputs s1 = (acted1, s')"
        using Cons.prems(1) False i nl by (auto split: prod.splits)
      from Cons.IH[OF l Cons.prems(2)] have 1: "report s' = report s1 \<and> raised s' = raised s1" .
      have "\<not> stop_event s1"
      proof
        assume st: "stop_event s1"
        have "stop_event s'" using l st
        proof (induction inputs arbitrary: s1 acted1)
          case Nil
          then show ?case by simp
        next
          case (Cons inp' inputs')
          show ?case
          proof (cases "windows s1 = {}")
            case True
            with Cons.prems show ?thesis by simp
          next
            case False
            obtain a2 left2 s2 where i2: "display_iteration d inp' s1 = (a2, left2, s2)"
              by (cases "display_iteration d inp' s1") auto
            have st2: "stop_event s2" using display_iteration_keeps_stop[OF i2 Cons.prems(2)] .
            show ?thesis
            proof (cases left2)
              case True
              with False i2 Cons.prems(1) st2 show ?thesis by simp
            next
              case nl2: False
              obtain acted2 where l2: "display_loop d inputs' s2 = (acted2, s')"
                using Cons.prems(1) False i2 nl2 by (auto split: prod.splits)
              from Cons.IH[OF l2 st2] show ?thesis .
            qed
          qed
        qed
        with Cons.prems(2) show False by simp
      qed
      from display_iteration_quiet[OF i this] 1 show ?thesis by simp
    qed
  qed
qed

text \<open>
  A run that ends with the stop event set, having started with it clear, splits
  at the iteration on which the key was pressed: up to there the loop ran as it
  would have on the iterations before alone; on that iteration it took one frame
  item, recorded its count, and closed.
\<close>

lemma display_loop_cancel_split:
  assumes "display_loop d inputs s0 = (acted, s)"
    and "\<not> stop_event s0" and "stop_event s"
  shows "\<exists>pre arrivals key post acted_pre s_pre it q.
            inputs = pre @ (arrivals, key) # post
          \<and> display_loop d pre s0 = (acted_pre, s_pre)
          \<and> \<not> stop_event s_pre \<and> windows s_pre \<noteq> {}
          \<and> queue s_pre @ arrivals = it # q
          \<and> \<not> is_sentinel it \<and> z_pressed key
          \<and> acted = acted_pre @ [it]
          \<and> s = close_and_write d
                  (s_pre\<lparr>final_counts :=
                           AList.update (fst it) (item_count it) (final_counts s_pre),
                         stop_event := True, queue := []\<rparr>)"
  using assms
proof (induction inputs arbitrary: s0 acted)
  case Nil
  then show ?case by simp
next
  case (Cons inp inputs)
  obtain arrivals k where inp: "inp = (arrivals, k)" by (cases inp)
  from Cons.prems have w: "windows s0 \<noteq> {}" by auto
  have step: "\<exists>pre arrivals key post acted_pre s_pre it q.
            inp # inputs = pre @ (arrivals, key) # post
          \<and> display_loop d pre s0 = (acted_pre, s_pre)
          \<and> \<not> stop_event s_pre \<and> windows s_pre \<noteq> {}
          \<and> queue s_pre @ arrivals = it # q
          \<and> \<not> is_sentinel it \<and> z_pressed key
          \<and> acted = acted_pre @ [it]
          \<and> s = close_and_write d
                  (s_pre\<lparr>final_counts :=
                           AList.update (fst it) (item_count it) (final_counts s_pre),
                         stop_event := True, queue := []\<rparr>)"
    if it0: "display_iteration d inp s0 = (a0, False, s1)" and ns: "\<not> stop_event s1" for a0 s1
  proof -
    obtain acted1 where l: "display_loop d inputs s1 = (acted1, s)" and a: "acted = a0 @ acted1"
      using Cons.prems(1) w it0 by (auto split: prod.splits)
    from Cons.IH[OF l ns Cons.prems(3)] obtain pre arrivals' key post acted_pre s_pre it q where
      r: "inputs = pre @ (arrivals', key) # post"
         "display_loop d pre s1 = (acted_pre, s_pre)"
         "\<not> stop_event s_pre" "windows s_pre \<noteq> {}"
         "queue s_pre @ arrivals' = it # q"
         "\<not> is_sentinel it" "z_pressed key"
         "acted1 = acted_pre @ [it]"
         "s = close_and_write d
                  (s_pre\<lparr>final_counts :=
                           AList.update (fst it) (item_count it) (final_counts s_pre),
                         stop_event := True, queue := []\<rparr>)"
      by blast
    have 1: "inp # inputs = (inp # pre) @ (arrivals', key) # post" using r(1) by simp
    have 2: "display_loop d (inp # pre) s0 = (a0 @ acted_pre, s_pre)"
      using w it0 r(2) by simp
    have 3: "acted = (a0 @ acted_pre) @ [it]" using a r(8) by simp
    from 1 2 3 r(3-7,9) show ?thesis by blast
  qed
  show ?case
  proof (cases "queue s0 @ arrivals")
    case Nil
    from display_iteration_empty[OF Nil Cons.prems(2), of d k] inp
    have "display_iteration d inp s0 = ([], False, s0)" by simp
    from step[OF this Cons.prems(2)] show ?thesis .
  next
    case (Cons it q)
    obtain n fr c where it: "it = (n, fr, c)" by (cases it)
    show ?thesis
    proof (cases fr)
      case None
      let ?s1 = "if n \<in> windows s0
         then s0\<lparr>queue := q, windows := windows s0 - {n},
                final_counts := AList.update n c (final_counts s0)\<rparr>
         else s0\<lparr>queue := q\<rparr>"
      from Cons it None have qa: "queue s0 @ arrivals = (n, None, c) # q" by simp
      from display_iteration_sentinel[OF qa, of d k] inp
      have i: "display_iteration d inp s0 = ([(n, None, c)], False, ?s1)" by simp
      have "\<not> stop_event ?s1" using Cons.prems(2) by simp
      from step[OF i this] show ?thesis .
    next
      case (Some img)
      from Cons it Some have qa: "queue s0 @ arrivals = (n, Some img, c) # q" by simp
      show ?thesis
      proof (cases "z_pressed k")
        case False
        let ?s1 = "s0\<lparr>queue := q, final_counts := AList.update n c (final_counts s0)\<rparr>"
        from display_iteration_frame[OF qa, of d k] inp False
        have i: "display_iteration d inp s0 = ([(n, Some img, c)], False, ?s1)" by simp
        have "\<not> stop_event ?s1" using Cons.prems(2) by simp
        from step[OF i this] show ?thesis .
      next
        case True
        from display_iteration_frame[OF qa, of d k] inp w Cons.prems(1) True
        have a: "acted = [(n, Some img, c)]"
          and s: "s = close_and_write d
                (s0\<lparr>final_counts := AList.update n c (final_counts s0), stop_event := True,
                   queue := []\<rparr>)" by simp_all
        have 1: "inp # inputs = [] @ (arrivals, k) # inputs" using inp by simp
        have 2: "display_loop d [] s0 = ([], s0)" by simp
        have 3: "\<not> is_sentinel (n, Some img, c)" by (simp add: is_sentinel_def)
        have 4: "acted = [] @ [(n, Some img, c)]" using a by simp
        have 5: "s = close_and_write d
                  (s0\<lparr>final_counts :=
                        AList.update (fst (n, Some img, c)) (item_count (n, Some img, c))
                          (final_counts s0),
                      stop_event := True, queue := []\<rparr>)"
          using s by (simp add: item_count_def)
        from 1 2 Cons.prems(2) w qa 3 True 4 5 show ?thesis by blast
      qed
    qed
  qed
qed

lemma expected_count_start:
  "expected_count lane acted (Some 0) = Some (last_count lane acted)"
  by (simp add: expected_count_def last_count_def split: list.splits)

text \<open>
  \<^bold>\<open>C7.\<close> Let the consumer start with the stop event clear and end with it set
  (cancellation was requested, by the key \<^verbatim>\<open>z\<close>), and let no lane have more than
  one sentinel among the items acted on (each worker publishes exactly one). Then
  the run splits at the iteration on which the key was pressed: before it the
  loop ran as it does on those iterations alone; on it the consumer took one frame
  item from the head of the queue, recorded its count, and acted on nothing else:
  whatever was queued behind that item was drained, the queue is empty and
  \<^verbatim>\<open>final_counts\<close> holds nothing of the drained items. If the table can be
  written, the report is \<^verbatim>\<open>final_counts\<close>; if writing fails there is no report;
  if the directory cannot be made, \<^verbatim>\<open>UnboundLocalError\<close> leaves
  \<^verbatim>\<open>display_frames\<close> and there is no report. The keys of \<^verbatim>\<open>final_counts\<close> are
  distinct, and for every configured lane it holds the count of the last item of
  that lane acted on, 0 if there was none.
\<close>

theorem cancel_report:
  assumes "display_frames d inputs lane_list False = (acted, s)"
    and "stop_event s"
    and "distinct (map fst (filter is_sentinel acted))"
  shows "(\<exists>pre arrivals key post acted_pre s_pre it q.
            inputs = pre @ (arrivals, key) # post
          \<and> display_frames d pre lane_list False = (acted_pre, s_pre)
          \<and> \<not> stop_event s_pre \<and> windows s_pre \<noteq> {}
          \<and> queue s_pre @ arrivals = it # q
          \<and> \<not> is_sentinel it \<and> z_pressed key
          \<and> acted = acted_pre @ [it]
          \<and> final_counts s = AList.update (fst it) (item_count it) (final_counts s_pre))
       \<and> queue s = []
       \<and> windows s = {}
       \<and> report s = (if d = DiskOk then Some (final_counts s) else None)
       \<and> raised s = (if d = MakedirsFails then Some UnboundLocalError else None)
       \<and> distinct (map fst (final_counts s))
       \<and> (\<forall>lane \<in> set lane_list.
             map_of (final_counts s) lane = Some (last_count lane acted))"
proof -
  let ?i = "consumer_init lane_list False :: 'a consumer"
  have l: "display_loop d inputs ?i = (acted, s)" using assms(1) by (simp add: display_frames_def)
  have p2: "\<not> stop_event ?i" by (simp add: consumer_init_def)
  have p5: "\<forall>it \<in> set (filter is_sentinel acted).
      fst it \<in> set lane_list \<longrightarrow> fst it \<in> windows ?i"
    by (simp add: consumer_init_def)
  have p6: "distinct (map fst (final_counts ?i))"
    by (simp add: consumer_init_def zero_counts_distinct)
  have z: "map_of (final_counts ?i) lane = Some 0" if "lane \<in> set lane_list" for lane
    using that by (simp add: consumer_init_def zero_counts_map_of)
  from display_loop_cancel[OF l p2 assms(2,3) p5 p6]
  have r: "queue s = []"
    "distinct (map fst (final_counts s))"
    "\<forall>lane \<in> set lane_list. map_of (final_counts s) lane
         = expected_count lane acted (map_of (final_counts ?i) lane)"
    by simp_all
  from r(3) z have 4: "\<forall>lane \<in> set lane_list.
             map_of (final_counts s) lane = Some (last_count lane acted)"
    by (simp add: expected_count_start)
  from display_loop_cancel_split[OF l p2 assms(2)]
  obtain pre arrivals key post acted_pre s_pre it q where
    sp: "inputs = pre @ (arrivals, key) # post"
        "display_loop d pre ?i = (acted_pre, s_pre)"
        "\<not> stop_event s_pre" "windows s_pre \<noteq> {}"
        "queue s_pre @ arrivals = it # q"
        "\<not> is_sentinel it" "z_pressed key"
        "acted = acted_pre @ [it]"
        "s = close_and_write d
                  (s_pre\<lparr>final_counts :=
                           AList.update (fst it) (item_count it) (final_counts s_pre),
                         stop_event := True, queue := []\<rparr>)"
    by blast
  have nr: "report s_pre = None \<and> raised s_pre = None"
    using display_loop_quiet[OF sp(2) sp(3)] by (simp add: consumer_init_def)
  from sp(9) have fc: "final_counts s =
      AList.update (fst it) (item_count it) (final_counts s_pre)"
    by (simp add: close_and_write_fields)
  from sp(9) nr have rep: "report s = (if d = DiskOk then Some (final_counts s) else None)"
    and rai: "raised s = (if d = MakedirsFails then Some UnboundLocalError else None)"
    and win: "windows s = {}"
    by (cases d; simp add: close_and_write_fields)+
  from sp(2) have "display_frames d pre lane_list False = (acted_pre, s_pre)"
    by (simp add: display_frames_def)
  with sp(1,3-8) fc have ex: "\<exists>pre arrivals key post acted_pre s_pre it q.
            inputs = pre @ (arrivals, key) # post
          \<and> display_frames d pre lane_list False = (acted_pre, s_pre)
          \<and> \<not> stop_event s_pre \<and> windows s_pre \<noteq> {}
          \<and> queue s_pre @ arrivals = it # q
          \<and> \<not> is_sentinel it \<and> z_pressed key
          \<and> acted = acted_pre @ [it]
          \<and> final_counts s = AList.update (fst it) (item_count it) (final_counts s_pre)"
    by blast
  from ex r(1,2) win rep rai 4 show ?thesis by blast
qed


lemma sample_run:
  "display_frames DiskOk sample_inputs [''Lane 1'', ''Lane 2''] False
     = (sample_acted, sample_end)"
  by (simp add: display_frames_def sample_inputs_def sample_acted_def sample_end_def
        consumer_init_def display_iteration_def close_and_write_def write_counts_table_def
        Let_def)

lemma sample_run_no_directory:
  "display_frames MakedirsFails sample_inputs [''Lane 1'', ''Lane 2''] False
     = (sample_acted, sample_end\<lparr>report := None, raised := Some UnboundLocalError\<rparr>)"
  by (simp add: display_frames_def sample_inputs_def sample_acted_def sample_end_def
        consumer_init_def display_iteration_def close_and_write_def write_counts_table_def
        Let_def)

text \<open>
  On the sample run the report holds 2 for lane 1 (the frame on which \<^verbatim>\<open>Z\<close> was
  pressed; the frame with count 3 queued behind it was drained and not acted on)
  and 4 for lane 2 (its sentinel); with a directory that cannot be made the same
  run ends with no report.
\<close>

theorem cancel_report_witness:
  "display_frames DiskOk sample_inputs [''Lane 1'', ''Lane 2''] False
     = (sample_acted, sample_end)
   \<and> stop_event sample_end
   \<and> distinct (map fst (filter is_sentinel sample_acted))
   \<and> queue sample_end = []
   \<and> (''Lane 1'', Some 3, 3) \<notin> set sample_acted
   \<and> report sample_end = Some [(''Lane 1'', 2), (''Lane 2'', 4)]
   \<and> last_count ''Lane 1'' sample_acted = 2
   \<and> last_count ''Lane 2'' sample_acted = 4
   \<and> report (snd (display_frames MakedirsFails sample_inputs [''Lane 1'', ''Lane 2''] False))
       = None"
proof -
  have st: "stop_event sample_end" by (simp add: sample_end_def)
  have d: "distinct (map fst (filter is_sentinel sample_acted))"
    by (simp add: is_sentinel_def sample_acted_def)
  have fc: "final_counts sample_end = [(''Lane 1'', 2), (''Lane 2'', 4)]"
    by (simp add: sample_end_def)
  have n: "(''Lane 1'', Some 3, 3) \<notin> set sample_acted" by (simp add: sample_acted_def)
  from cancel_report[OF sample_run st d]
  have q: "queue sample_end = []"
    and r: "report sample_end = (if DiskOk = DiskOk then Some (final_counts sample_end) else None)"
    and l: "\<forall>lane \<in> set [''Lane 1'', ''Lane 2''].
          map_of (final_counts sample_end) lane = Some (last_count lane sample_acted)"
    by blast+
  from l have lc: "last_count ''Lane 1'' sample_acted = 2 \<and> last_count ''Lane 2'' sample_acted = 4"
    unfolding fc by simp
  have st': "stop_event (sample_end\<lparr>report := None, raised := Some UnboundLocalError\<rparr>)"
    by (simp add: sample_end_def)
  from cancel_report[OF sample_run_no_directory st' d]
  have "report (sample_end\<lparr>report := None, raised := Some UnboundLocalError\<rparr>)
      = (if MakedirsFails = DiskOk
         then Some (final_counts (sample_end\<lparr>report := None, raised := Some UnboundLocalError\<rparr>))
         else None)" by blast
  then have nd: "report (snd (display_frames MakedirsFails sample_inputs
      [''Lane 1'', ''Lane 2''] False)) = None"
    by (simp add: sample_run_no_directory)
  from sample_run st d q n r lc nd fc show ?thesis by simp
qed


end
